theory Spec2Isabelle
  imports Complex_Main
begin

section \<open>Data model\<close>

text \<open>
  The editing service works on lists of dictionaries with the two keys \<^verbatim>\<open>start\<close> and
  \<^verbatim>\<open>end\<close> (seconds). A dictionary is a record here; \<open>end\<close> is a keyword of the
  language, so the second field is written \<open>end'\<close>. A float is read as the real
  number it stands for; infinities and NaN are left out of the model. Comparing two
  floats and taking their maximum is exact. The one sum of floats in the code is in the
  test of the merge loop, and its rounding is modelled by the functions that take the
  float addition as a parameter.
\<close>

record interval =
  start :: real
  end' :: real

section \<open>Interval algebra (app/services/editing.py)\<close>

subsection \<open>\<^verbatim>\<open>_coalesce_ranges\<close> on values\<close>

text \<open>
  One round of the loop of \<^verbatim>\<open>_coalesce_ranges\<close>: \<open>merged\<close> is never empty when the
  round runs (it starts as \<^verbatim>\<open>[ranges[0]]\<close> and only grows), \<open>lst\<close> is \<^verbatim>\<open>merged[-1]\<close>.
  Overwriting \<^verbatim>\<open>last['end']\<close> replaces the last element of \<open>merged\<close>.
\<close>

definition coalesce_step :: "real \<Rightarrow> interval list \<Rightarrow> interval \<Rightarrow> interval list" where
  "coalesce_step eps merged r =
     (let lst = last merged in
      if start r \<le> end' lst + eps
      then butlast merged @ [lst\<lparr>end' := max (end' lst) (end' r)\<rparr>]
      else merged @ [r])"

text \<open>
  \<^verbatim>\<open>sorted(ranges, key=lambda r: r['start'])\<close> is a stable sort, as \<open>sort_key\<close> is.
\<close>

definition coalesce_ranges :: "real \<Rightarrow> interval list \<Rightarrow> interval list" where
  "coalesce_ranges eps ranges =
     (if ranges = [] then []
      else let rs = sort_key start ranges
           in foldl (coalesce_step eps) [hd rs] (tl rs))"

text \<open>The default tolerance of \<^verbatim>\<open>_coalesce_ranges\<close>, \<^verbatim>\<open>1e-3\<close>.\<close>

definition default_eps :: real where
  "default_eps = 1 / 1000"

subsection \<open>\<^verbatim>\<open>_coalesce_ranges\<close> with the float sum\<close>

text \<open>
  The test of the loop adds the tolerance to an end in floating point, and the sum is
  rounded. \<open>fadd\<close> stands for the float addition of the language; \<open>coalesce_ranges\<close>
  above is the function for sums that are exact, and the functions below are the code
  for every float addition. The default tolerance is the float written \<^verbatim>\<open>1e-3\<close>; what
  adding it to an end gives is up to \<open>fadd\<close>.
\<close>

definition coalesce_step_fl ::
  "(real \<Rightarrow> real \<Rightarrow> real) \<Rightarrow> real \<Rightarrow> interval list \<Rightarrow> interval \<Rightarrow> interval list" where
  "coalesce_step_fl fadd eps merged r =
     (let lst = last merged in
      if start r \<le> fadd (end' lst) eps
      then butlast merged @ [lst\<lparr>end' := max (end' lst) (end' r)\<rparr>]
      else merged @ [r])"

definition coalesce_ranges_fl ::
  "(real \<Rightarrow> real \<Rightarrow> real) \<Rightarrow> real \<Rightarrow> interval list \<Rightarrow> interval list" where
  "coalesce_ranges_fl fadd eps ranges =
     (if ranges = [] then []
      else let rs = sort_key start ranges
           in foldl (coalesce_step_fl fadd eps) [hd rs] (tl rs))"

subsection \<open>\<^verbatim>\<open>_coalesce_ranges\<close> on a store\<close>

text \<open>
  In Python the list holds references to dictionaries. \<^verbatim>\<open>sorted\<close> builds a new list
  of the same references, \<^verbatim>\<open>merged\<close> holds references too, and
  \<^verbatim>\<open>last['end'] = ...\<close> writes through the reference into the caller's dictionary.
  The store maps a reference to the dictionary it points to.
\<close>

type_synonym ref = nat
type_synonym store = "ref \<Rightarrow> interval"

definition coalesce_step_h ::
  "(real \<Rightarrow> real \<Rightarrow> real) \<Rightarrow> real \<Rightarrow> store \<times> ref list \<Rightarrow> ref \<Rightarrow> store \<times> ref list" where
  "coalesce_step_h fadd eps st r =
     (case st of (h, merged) \<Rightarrow>
        (let lst = last merged in
         if start (h r) \<le> fadd (end' (h lst)) eps
         then (h(lst := (h lst)\<lparr>end' := max (end' (h lst)) (end' (h r))\<rparr>), merged)
         else (h, merged @ [r])))"

definition coalesce_ranges_h ::
  "(real \<Rightarrow> real \<Rightarrow> real) \<Rightarrow> real \<Rightarrow> store \<Rightarrow> ref list \<Rightarrow> store \<times> ref list" where
  "coalesce_ranges_h fadd eps h ranges =
     (if ranges = [] then (h, [])
      else let rs = sort_key (\<lambda>r. start (h r)) ranges
           in foldl (coalesce_step_h fadd eps) (h, [hd rs]) (tl rs))"

subsection \<open>\<^verbatim>\<open>_invert_ranges\<close>\<close>

text \<open>The loop state is the pair of \<^verbatim>\<open>keep\<close> and \<^verbatim>\<open>cur\<close>.\<close>

definition invert_step :: "interval list \<times> real \<Rightarrow> interval \<Rightarrow> interval list \<times> real" where
  "invert_step st r =
     (case st of (keep, cur) \<Rightarrow>
        ((if start r > cur then keep @ [\<lparr>start = cur, end' = start r\<rparr>] else keep),
         max cur (end' r)))"

definition invert_ranges :: "interval list \<Rightarrow> real \<Rightarrow> interval list" where
  "invert_ranges remove duration =
     (case foldl invert_step ([], 0) remove of (keep, cur) \<Rightarrow>
        if cur < duration then keep @ [\<lparr>start = cur, end' = duration\<rparr>] else keep)"

subsection \<open>Vocabulary of the properties\<close>

text \<open>
  An interval stands for the half-open range of time points from its start up to its
  end; an interval whose end is not after its start covers nothing.
\<close>

definition points :: "interval \<Rightarrow> real set" where
  "points r = {start r ..< end' r}"

definition cover :: "interval list \<Rightarrow> real set" where
  "cover rs = (\<Union>r \<in> set rs. points r)"

text \<open>Ascending by start.\<close>

definition sorted_by_start :: "interval list \<Rightarrow> bool" where
  "sorted_by_start rs = sorted (map start rs)"

text \<open>Every later interval starts more than \<open>eps\<close> after the end of every earlier one.\<close>

definition gaps_exceed :: "real \<Rightarrow> interval list \<Rightarrow> bool" where
  "gaps_exceed eps rs = sorted_wrt (\<lambda>a b. end' a + eps < start b) rs"

text \<open>No interval reaches into a later one.\<close>

definition non_overlapping :: "interval list \<Rightarrow> bool" where
  "non_overlapping rs = sorted_wrt (\<lambda>a b. end' a \<le> start b) rs"

text \<open>
  A merged, sorted remove-set: every interval has its end at or after its start, and
  the list is ascending with no interval reaching into a later one.
\<close>

definition interval_set :: "interval list \<Rightarrow> bool" where
  "interval_set rs = ((\<forall>r \<in> set rs. start r \<le> end' r) \<and> non_overlapping rs)"

section \<open>Filter graph (app/services/editing.py, \<^verbatim>\<open>auto_edit_video\<close>)\<close>

text \<open>\<^verbatim>\<open>str\<close> of a list index, in decimal.\<close>

fun str_nat :: "nat \<Rightarrow> string" where
  "str_nat n =
     (if n < 10 then [''0123456789'' ! n]
      else str_nat (n div 10) @ [''0123456789'' ! (n mod 10)])"

declare str_nat.simps [simp del]

text \<open>\<^verbatim>\<open>sep.join(parts)\<close>.\<close>

fun join :: "string \<Rightarrow> string list \<Rightarrow> string" where
  "join sep [] = []"
| "join sep [x] = x"
| "join sep (x # y # ys) = x @ sep @ join sep (y # ys)"

text \<open>
  The three strings one round of the loop over \<^verbatim>\<open>enumerate(keep)\<close> appends. How an
  f-string prints a float is the language's business: \<open>fmt\<close> stands for it.
\<close>

definition trim_bounds :: "interval \<Rightarrow> real \<times> real" where
  "trim_bounds seg = (let ss = max 0 (start seg); to = max ss (end' seg) in (ss, to))"

definition video_trim :: "(real \<Rightarrow> string) \<Rightarrow> nat \<Rightarrow> interval \<Rightarrow> string" where
  "video_trim fmt idx seg =
     (case trim_bounds seg of (ss, to) \<Rightarrow>
        ''[0:v]trim=start='' @ fmt ss @ '':end='' @ fmt to @
        '',setpts=PTS-STARTPTS[v'' @ str_nat idx @ '']'')"

definition audio_trim :: "(real \<Rightarrow> string) \<Rightarrow> nat \<Rightarrow> interval \<Rightarrow> string" where
  "audio_trim fmt idx seg =
     (case trim_bounds seg of (ss, to) \<Rightarrow>
        ''[0:a]atrim=start='' @ fmt ss @ '':end='' @ fmt to @
        '',asetpts=PTS-STARTPTS[a'' @ str_nat idx @ '']'')"

definition concat_input :: "nat \<Rightarrow> string" where
  "concat_input idx = ''[v'' @ str_nat idx @ ''][a'' @ str_nat idx @ '']''"

text \<open>The loop state is the triple of \<^verbatim>\<open>vf_parts\<close>, \<^verbatim>\<open>af_parts\<close> and \<^verbatim>\<open>concat_inputs\<close>.\<close>

definition trim_step ::
  "(real \<Rightarrow> string) \<Rightarrow> string list \<times> string list \<times> string list \<Rightarrow> nat \<times> interval
     \<Rightarrow> string list \<times> string list \<times> string list" where
  "trim_step fmt st p =
     (case st of (vf_parts, af_parts, concat_inputs) \<Rightarrow>
      case p of (idx, seg) \<Rightarrow>
        (vf_parts @ [video_trim fmt idx seg],
         af_parts @ [audio_trim fmt idx seg],
         concat_inputs @ [concat_input idx]))"

definition trim_stages ::
  "(real \<Rightarrow> string) \<Rightarrow> interval list \<Rightarrow> string list \<times> string list \<times> string list" where
  "trim_stages fmt keep = foldl (trim_step fmt) ([], [], []) (enumerate 0 keep)"

definition concat_stage :: "string list \<Rightarrow> nat \<Rightarrow> string" where
  "concat_stage concat_inputs concat_n =
     concat concat_inputs @ ''concat=n='' @ str_nat concat_n @ '':v=1:a=1[v][a];''"

definition color_chain :: "bool \<Rightarrow> string" where
  "color_chain apply_color_grade =
     (if apply_color_grade then '',eq=contrast=1.1:brightness=0.02:saturation=1.1'' else [])"

text \<open>\<^verbatim>\<open>if overlay_text:\<close> is false for \<^verbatim>\<open>None\<close> and for the empty string.\<close>

definition overlay_chain :: "string option \<Rightarrow> string" where
  "overlay_chain overlay_text =
     (case overlay_text of
        None \<Rightarrow> []
      | Some t \<Rightarrow>
          if t = [] then []
          else '',drawtext=text='' @ [CHR 0x27] @ t @ [CHR 0x27] @
               '':fontcolor=white:fontsize=24:x=(w-text_w)/2:y=50:box=1:boxcolor=black@0.4:boxborderw=10'')"

definition an_chain :: "bool \<Rightarrow> string" where
  "an_chain normalize_audio =
     (if normalize_audio then '',loudnorm=I=-16:TP=-1.5:LRA=11'' else [])"

definition filter_complex ::
  "(real \<Rightarrow> string) \<Rightarrow> interval list \<Rightarrow> bool \<Rightarrow> bool \<Rightarrow> string option \<Rightarrow> string" where
  "filter_complex fmt keep apply_color_grade normalize_audio overlay_text =
     (case trim_stages fmt keep of (vf_parts, af_parts, concat_inputs) \<Rightarrow>
        join '';'' vf_parts @ '';'' @ join '';'' af_parts @ '';'' @
        concat_stage concat_inputs (length keep) @
        ''[v]format=yuv420p'' @ color_chain apply_color_grade @ overlay_chain overlay_text @
        ''[vout];'' @
        ''[a]anull'' @ an_chain normalize_audio @ ''[aout]'')"

section \<open>The edit operation (app/services/editing.py, \<^verbatim>\<open>auto_edit_video\<close>)\<close>

text \<open>
  The exceptions of the modelled code, with their messages: the two the code raises
  itself, the \<^verbatim>\<open>KeyError\<close> of a missing key, the \<^verbatim>\<open>FileNotFoundError\<close> of a program
  that cannot be started, and the error of the probe library for an \<^verbatim>\<open>ffprobe\<close> that
  exits with a failure.
\<close>

datatype error =
  ValueError string | RuntimeError string | KeyError string | FileNotFoundError string |
  ProbeError string

subsection \<open>\<^verbatim>\<open>_probe_duration\<close>\<close>

text \<open>
  \<^verbatim>\<open>ffmpeg.probe\<close> belongs to a library: it starts the program \<^verbatim>\<open>ffprobe\<close> on the path
  as a child process and returns what it prints, as a dictionary. Of that dictionary
  the code reads the streams, with the keys \<^verbatim>\<open>codec_type\<close> and \<^verbatim>\<open>duration\<close> read by
  \<^verbatim>\<open>get\<close> (\<open>None\<close> for a missing key), and the key \<^verbatim>\<open>duration\<close> of the format, whose
  absence raises \<^verbatim>\<open>KeyError\<close>.
\<close>

record stream_info =
  codec_type :: "string option"
  stream_duration :: "string option"

record probe_data =
  streams :: "stream_info list"
  format_duration :: "string option"

text \<open>
  The three ways a call of \<^verbatim>\<open>ffmpeg.probe\<close> ends: the child could not be started,
  the child ran and failed, the child ran and its output was read.
\<close>

datatype probe_result =
  ProbeNotStarted error | ProbeFailed error | Probed probe_data

text \<open>
  \<open>pyfloat\<close> stands for \<^verbatim>\<open>float\<close> of the language on a string. The loop returns at the
  first video stream; \<^verbatim>\<open>x or y\<close> takes \<open>y\<close> when \<open>x\<close> is \<open>None\<close> or the empty string.
\<close>

definition format_seconds :: "(string \<Rightarrow> error + real) \<Rightarrow> probe_data \<Rightarrow> error + real" where
  "format_seconds pyfloat probe =
     (case format_duration probe of
        None \<Rightarrow> Inl (KeyError ''duration'')
      | Some d \<Rightarrow> pyfloat d)"

definition probe_duration :: "(string \<Rightarrow> error + real) \<Rightarrow> probe_data \<Rightarrow> error + real" where
  "probe_duration pyfloat probe =
     (case find (\<lambda>s. codec_type s = Some ''video'') (streams probe) of
        Some s \<Rightarrow>
          (case stream_duration s of
             None \<Rightarrow> format_seconds pyfloat probe
           | Some d \<Rightarrow> if d = [] then format_seconds pyfloat probe else pyfloat d)
      | None \<Rightarrow> format_seconds pyfloat probe)"

subsection \<open>The engine\<close>

text \<open>
  What \<^verbatim>\<open>proc.communicate()\<close> and \<^verbatim>\<open>proc.returncode\<close> give back once the child has
  exited; \<open>stderr_text\<close> is the diagnostic stream after
  \<^verbatim>\<open>decode('utf-8', 'ignore')\<close>.
\<close>

record proc_result =
  returncode :: int
  stderr_text :: string

text \<open>
  What this code hands to the command builder: the two paths and the filter graph (the
  codec and container options are constants).
\<close>

record ffmpeg_cmd =
  cmd_input :: string
  cmd_output :: string
  cmd_filter_complex :: string

text \<open>
  \<^verbatim>\<open>asyncio.create_subprocess_exec(*args)\<close> starts the program named by the first
  argument with the other arguments. Either the program cannot be started, and the call
  raises with no child process, or a child runs to its end.
\<close>

datatype exec_result = ExecNotStarted error | ExecExited proc_result

text \<open>
  The surroundings of a call: how an f-string prints a float, the float addition and
  \<^verbatim>\<open>float\<close> of the language, \<^verbatim>\<open>ffmpeg.probe\<close>, the argument list \<^verbatim>\<open>cmd.get_args()\<close> the
  command builder of the library makes of a command, and the operating system starting
  a program.
\<close>

record env =
  env_fmt :: "real \<Rightarrow> string"
  env_fadd :: "real \<Rightarrow> real \<Rightarrow> real"
  env_float :: "string \<Rightarrow> error + real"
  env_probe :: "string \<Rightarrow> probe_result"
  env_get_args :: "ffmpeg_cmd \<Rightarrow> string list"
  env_exec :: "string list \<Rightarrow> exec_result"

text \<open>
  The world is the log of the child processes started, oldest first: the \<^verbatim>\<open>ffprobe\<close>
  of a probe with its path, and a child of \<^verbatim>\<open>create_subprocess_exec\<close> with its
  arguments.
\<close>

datatype child = Ffprobe string | Child "string list"

type_synonym world = "child list"

definition auto_edit_video ::
  "env \<Rightarrow> string \<Rightarrow> string \<Rightarrow> interval list \<Rightarrow> bool \<Rightarrow> bool \<Rightarrow> string option \<Rightarrow> world
     \<Rightarrow> (error + unit) \<times> world" where
  "auto_edit_video e input_path output_path remove_segments
       apply_color_grade normalize_audio overlay_text w =
     (case env_probe e input_path of
        ProbeNotStarted err \<Rightarrow> (Inl err, w)
      | ProbeFailed err \<Rightarrow> (Inl err, w @ [Ffprobe input_path])
      | Probed probe \<Rightarrow>
          (case probe_duration (env_float e) probe of
             Inl err \<Rightarrow> (Inl err, w @ [Ffprobe input_path])
           | Inr duration \<Rightarrow>
               (let remove = coalesce_ranges_fl (env_fadd e) default_eps remove_segments;
                    keep = invert_ranges remove duration
                in if keep = []
                   then (Inl (ValueError ''Nothing to keep after removing segments''),
                         w @ [Ffprobe input_path])
                   else
                     (let cmd = \<lparr>cmd_input = input_path, cmd_output = output_path,
                                 cmd_filter_complex =
                                   filter_complex (env_fmt e) keep apply_color_grade
                                     normalize_audio overlay_text\<rparr>;
                          args = env_get_args e cmd
                      in case env_exec e args of
                           ExecNotStarted err \<Rightarrow> (Inl err, w @ [Ffprobe input_path])
                         | ExecExited proc \<Rightarrow>
                             (if returncode proc \<noteq> 0
                              then Inl (RuntimeError (''ffmpeg failed: '' @ stderr_text proc))
                              else Inr (),
                              w @ [Ffprobe input_path, Child args])))))"

section \<open>Silence detection (app/utils/silence.py)\<close>

text \<open>
  The text is the decoded diagnostic stream of the engine, a list of characters with
  codes below 256. \<^verbatim>\<open>str.splitlines\<close> ends a line at a line feed, a carriage return
  (one boundary together with a line feed that follows it), a vertical tab, a form
  feed, a file, group or record separator and at the next-line character; the two
  line boundaries with codes beyond 255 do not occur in the model. The boundary is not
  part of the line, and no empty line follows a boundary that ends the text.
\<close>

definition is_linebreak :: "char \<Rightarrow> bool" where
  "is_linebreak c =
     (c \<in> set [CHR 0x0A, CHR 0x0D, CHR 0x0B, CHR 0x0C, CHR 0x1C, CHR 0x1D, CHR 0x1E, CHR 0x85])"

fun splitlines_from :: "string \<Rightarrow> string \<Rightarrow> string list" where
  "splitlines_from line [] = (if line = [] then [] else [line])"
| "splitlines_from line [c] =
     (if is_linebreak c then [line] else [line @ [c]])"
| "splitlines_from line (c # d # cs) =
     (if c = CHR 0x0D \<and> d = CHR 0x0A then line # splitlines_from [] cs
      else if is_linebreak c then line # splitlines_from [] (d # cs)
      else splitlines_from (line @ [c]) (d # cs))"

definition splitlines :: "string \<Rightarrow> string list" where
  "splitlines text = splitlines_from [] text"

text \<open>
  Both patterns are a literal prefix followed by the group \<^verbatim>\<open>([0-9.]+)\<close>.
  \<^verbatim>\<open>search\<close> finds the leftmost place where the prefix is followed by a character of
  the class; the group is the longest run of such characters from there. A sign or an
  exponent is not in the class.
\<close>

definition is_num_char :: "char \<Rightarrow> bool" where
  "is_num_char c = (c \<in> set ''0123456789.'')"

fun re_search :: "string \<Rightarrow> string \<Rightarrow> string option" where
  "re_search pre [] = None"
| "re_search pre (c # cs) =
     (let rest = drop (length pre) (c # cs)
      in if take (length pre) (c # cs) = pre \<and> rest \<noteq> [] \<and> is_num_char (hd rest)
         then Some (takeWhile is_num_char rest)
         else re_search pre cs)"

definition SILENCE_RE_START :: "string \<Rightarrow> string option" where
  "SILENCE_RE_START line = re_search ''silence_start: '' line"

definition SILENCE_RE_END :: "string \<Rightarrow> string option" where
  "SILENCE_RE_END line = re_search ''silence_end: '' line"

text \<open>
  The dictionaries the parser returns hold floats that are stored and never compared:
  the type of floats is a parameter here, and so is \<^verbatim>\<open>float\<close> of the language on a
  string, \<open>pyfloat\<close>, which returns the float or raises \<^verbatim>\<open>ValueError\<close>.
\<close>

record 'f silence =
  silence_start :: 'f
  silence_end :: 'f

text \<open>
  One round of the loop over the lines. The state is \<^verbatim>\<open>current_start\<close> (\<open>None\<close> as in
  Python) with the list \<^verbatim>\<open>silences\<close>. The start pattern is handled first; the end
  pattern is searched on every line, and its group is converted only when
  \<^verbatim>\<open>current_start\<close> is set.
\<close>

definition parse_line ::
  "(string \<Rightarrow> error + 'f) \<Rightarrow> 'f option \<times> 'f silence list \<Rightarrow> string
     \<Rightarrow> error + ('f option \<times> 'f silence list)" where
  "parse_line pyfloat st line =
     (case st of (current_start, silences) \<Rightarrow>
        (case (case SILENCE_RE_START line of
                 None \<Rightarrow> Inr current_start
               | Some g \<Rightarrow> (case pyfloat g of Inl e \<Rightarrow> Inl e | Inr t \<Rightarrow> Inr (Some t))) of
           Inl e \<Rightarrow> Inl e
         | Inr cs \<Rightarrow>
             (case SILENCE_RE_END line of
                None \<Rightarrow> Inr (cs, silences)
              | Some g \<Rightarrow>
                  (case cs of
                     None \<Rightarrow> Inr (cs, silences)
                   | Some s \<Rightarrow>
                       (case pyfloat g of
                          Inl e \<Rightarrow> Inl e
                        | Inr en \<Rightarrow>
                            Inr (None, silences @ [\<lparr>silence_start = s, silence_end = en\<rparr>]))))))"

fun parse_lines ::
  "(string \<Rightarrow> error + 'f) \<Rightarrow> 'f option \<times> 'f silence list \<Rightarrow> string list
     \<Rightarrow> error + ('f option \<times> 'f silence list)" where
  "parse_lines pyfloat st [] = Inr st"
| "parse_lines pyfloat st (line # lines) =
     (case parse_line pyfloat st line of
        Inl e \<Rightarrow> Inl e
      | Inr st' \<Rightarrow> parse_lines pyfloat st' lines)"

text \<open>
  \<^verbatim>\<open>detect_silence_intervals\<close> from the decoded diagnostic text on: the loop starts
  with no interval and no start, and returns \<^verbatim>\<open>silences\<close> alone.
\<close>

definition detect_silence_intervals ::
  "(string \<Rightarrow> error + 'f) \<Rightarrow> string \<Rightarrow> error + 'f silence list" where
  "detect_silence_intervals pyfloat text =
     (case parse_lines pyfloat (None, []) (splitlines text) of
        Inl e \<Rightarrow> Inl e
      | Inr (current_start, silences) \<Rightarrow> Inr silences)"

subsection \<open>The two-state machine of the specification\<close>

text \<open>
  The specification describes the parser as a machine over markers that carry a
  floating-point timestamp: a start marker while idle records the timestamp and opens a
  silence, an end marker during a silence emits the interval and returns to idle, an
  end marker while idle is ignored, and what is open when the stream ends is not
  emitted. A start marker during a silence replaces the recorded timestamp.
\<close>

datatype 'f marker = SilenceStart 'f | SilenceEnd 'f

datatype 'f parser_state = Idle | InSilence 'f

fun machine_step ::
  "'f parser_state \<times> 'f silence list \<Rightarrow> 'f marker \<Rightarrow> 'f parser_state \<times> 'f silence list" where
  "machine_step (Idle, out) (SilenceStart t) = (InSilence t, out)"
| "machine_step (InSilence s, out) (SilenceStart t) = (InSilence t, out)"
| "machine_step (InSilence s, out) (SilenceEnd e) =
     (Idle, out @ [\<lparr>silence_start = s, silence_end = e\<rparr>])"
| "machine_step (Idle, out) (SilenceEnd e) = (Idle, out)"

definition machine_run :: "'f marker list \<Rightarrow> 'f silence list" where
  "machine_run ms = snd (foldl machine_step (Idle, []) ms)"

section \<open>Auxiliary definitions\<close>

subsection \<open>The loops as recursions\<close>

text \<open>
  The loop of \<^verbatim>\<open>_coalesce_ranges\<close> with the running interval \<open>cur\<close> (the last element
  of \<^verbatim>\<open>merged\<close>) as an argument; the intervals before it are final.
\<close>

fun coalesce_from :: "real \<Rightarrow> interval \<Rightarrow> interval list \<Rightarrow> interval list" where
  "coalesce_from eps cur [] = [cur]"
| "coalesce_from eps cur (r # rs) =
     (if start r \<le> end' cur + eps
      then coalesce_from eps (cur\<lparr>end' := max (end' cur) (end' r)\<rparr>) rs
      else cur # coalesce_from eps r rs)"

text \<open>The same with the float sum.\<close>

fun coalesce_from_fl ::
  "(real \<Rightarrow> real \<Rightarrow> real) \<Rightarrow> real \<Rightarrow> interval \<Rightarrow> interval list \<Rightarrow> interval list" where
  "coalesce_from_fl fadd eps cur [] = [cur]"
| "coalesce_from_fl fadd eps cur (r # rs) =
     (if start r \<le> fadd (end' cur) eps
      then coalesce_from_fl fadd eps (cur\<lparr>end' := max (end' cur) (end' r)\<rparr>) rs
      else cur # coalesce_from_fl fadd eps r rs)"

text \<open>The loop of \<^verbatim>\<open>_invert_ranges\<close> from the cursor \<open>cur\<close> on, with the final test.\<close>

fun keep_from :: "real \<Rightarrow> interval list \<Rightarrow> real \<Rightarrow> interval list" where
  "keep_from cur [] duration =
     (if cur < duration then [\<lparr>start = cur, end' = duration\<rparr>] else [])"
| "keep_from cur (r # rs) duration =
     (if start r > cur
      then \<lparr>start = cur, end' = start r\<rparr> # keep_from (max cur (end' r)) rs duration
      else keep_from (max cur (end' r)) rs duration)"

subsection \<open>Further vocabulary\<close>

text \<open>
  Every later interval starts after the float sum of the tolerance and the end of every
  earlier one: the test of the loop has failed between them.
\<close>

definition gaps_exceed_fl :: "(real \<Rightarrow> real \<Rightarrow> real) \<Rightarrow> real \<Rightarrow> interval list \<Rightarrow> bool" where
  "gaps_exceed_fl fadd eps rs = sorted_wrt (\<lambda>a b. fadd (end' a) eps < start b) rs"

text \<open>
  The time points from the start of an interval of the list up to its end or up to the
  float sum of its end and the tolerance, whichever is larger.
\<close>

definition cover_reach :: "(real \<Rightarrow> real \<Rightarrow> real) \<Rightarrow> real \<Rightarrow> interval list \<Rightarrow> real set" where
  "cover_reach fadd eps rs =
     (\<Union>r \<in> set rs. {start r ..< max (end' r) (fadd (end' r) eps)})"

text \<open>
  The contract the specification asks of the algebra, in the specification's words:
  intervals with \<open>end \<le> start\<close> are dropped before merging.
\<close>

definition drop_degenerate :: "interval list \<Rightarrow> interval list" where
  "drop_degenerate rs = filter (\<lambda>r. \<not> end' r \<le> start r) rs"

text \<open>\<^verbatim>\<open>current_start\<close> read as a state of the machine.\<close>

fun abs_state :: "'f option \<Rightarrow> 'f parser_state" where
  "abs_state None = Idle"
| "abs_state (Some s) = InSilence s"

text \<open>
  The markers the two patterns find on a line: at most one start marker and at most
  one end marker, the start marker first; \<open>None\<close> when \<^verbatim>\<open>float\<close> rejects the text of a
  match. These are the matches of the code, which are fewer than the markers of the
  engine: a timestamp with a sign has no match.
\<close>

definition matched_marker ::
  "(string \<Rightarrow> error + 'f) \<Rightarrow> ('f \<Rightarrow> 'f marker) \<Rightarrow> string option \<Rightarrow> 'f marker list option" where
  "matched_marker pyfloat mk m =
     (case m of
        None \<Rightarrow> Some []
      | Some g \<Rightarrow> (case pyfloat g of Inl e \<Rightarrow> None | Inr t \<Rightarrow> Some [mk t]))"

definition matched_on_line :: "(string \<Rightarrow> error + 'f) \<Rightarrow> string \<Rightarrow> 'f marker list option" where
  "matched_on_line pyfloat line =
     (case matched_marker pyfloat SilenceStart (SILENCE_RE_START line) of
        None \<Rightarrow> None
      | Some ss \<Rightarrow>
          (case matched_marker pyfloat SilenceEnd (SILENCE_RE_END line) of
             None \<Rightarrow> None
           | Some es \<Rightarrow> Some (ss @ es)))"

fun matched_on_lines :: "(string \<Rightarrow> error + 'f) \<Rightarrow> string list \<Rightarrow> 'f marker list option" where
  "matched_on_lines pyfloat [] = Some []"
| "matched_on_lines pyfloat (line # lines) =
     (case matched_on_line pyfloat line of
        None \<Rightarrow> None
      | Some ms \<Rightarrow>
          (case matched_on_lines pyfloat lines of
             None \<Rightarrow> None
           | Some ms' \<Rightarrow> Some (ms @ ms')))"


subsection \<open>Inputs of the examples\<close>

text \<open>
  The float addition on operands whose exact sum is a float. The examples that use it
  add such operands only.
\<close>

definition exact_add :: "real \<Rightarrow> real \<Rightarrow> real" where
  "exact_add a b = a + b"

text \<open>
  A store with two dictionaries, \<^verbatim>\<open>{'start': 0, 'end': 2}\<close> at reference 0 and
  \<^verbatim>\<open>{'start': 1, 'end': 3}\<close> at reference 1.
\<close>

definition example_store :: store where
  "example_store =
     (\<lambda>a. \<lparr>start = 0, end' = 0\<rparr>)(0 := \<lparr>start = 0, end' = 2\<rparr>, 1 := \<lparr>start = 1, end' = 3\<rparr>)"

text \<open>How a float of a whole, non-negative number of seconds prints: \<^verbatim>\<open>2.0\<close>.\<close>

definition example_fmt :: "real \<Rightarrow> string" where
  "example_fmt x = str_nat (nat \<lfloor>x\<rfloor>) @ ''.0''"

text \<open>
  \<^verbatim>\<open>float\<close> on a text of digits and dots, the only texts the two patterns hand to it:
  digits with at most one dot among them and at least one digit are read as the
  decimal number, anything else raises \<^verbatim>\<open>ValueError\<close>. The examples convert decimals
  that are floats (\<^verbatim>\<open>1.0\<close>, \<^verbatim>\<open>2.5\<close>), so that reading them exactly is what \<^verbatim>\<open>float\<close>
  returns.
\<close>

definition is_digit :: "char \<Rightarrow> bool" where
  "is_digit c = (c \<in> set ''0123456789'')"

definition digits_val :: "string \<Rightarrow> nat" where
  "digits_val ds = foldl (\<lambda>a c. 10 * a + (of_char c - 48)) 0 ds"

definition decimal_float :: "string \<Rightarrow> error + real" where
  "decimal_float s =
     (let ip = takeWhile is_digit s; rest = dropWhile is_digit s;
          bad = Inl (ValueError (''could not convert string to float: '' @ [CHR 0x27] @ s @ [CHR 0x27]))
      in case rest of
           [] \<Rightarrow> if ip = [] then bad else Inr (real (digits_val ip))
         | c # fp \<Rightarrow>
             if c = CHR ''.'' \<and> list_all is_digit fp \<and> (ip \<noteq> [] \<or> fp \<noteq> [])
             then Inr (real (digits_val ip) + real (digits_val fp) / 10 ^ length fp)
             else bad)"

text \<open>
  A probe of a video of ten seconds, read from the format; an argument list of the
  shape the command builder makes of a command, which begins with the input option
  and does not name the program; and an operating system on which the program
  \<^verbatim>\<open>ffmpeg\<close> exists and ends with exit code 0, and no program of another name exists.
\<close>

definition example_probe :: "string \<Rightarrow> probe_result" where
  "example_probe path =
     Probed \<lparr>streams = [\<lparr>codec_type = Some ''video'', stream_duration = None\<rparr>],
             format_duration = Some ''10.0''\<rparr>"

definition example_get_args :: "ffmpeg_cmd \<Rightarrow> string list" where
  "example_get_args cmd =
     [''-i'', cmd_input cmd,
      ''-b:v'', ''2000k'', ''-b:a'', ''128k'', ''-acodec'', ''aac'',
      ''-movflags'', ''+faststart'', ''-vcodec'', ''libx264'', cmd_output cmd,
      ''-hide_banner'', ''-y'', ''-filter_complex'', cmd_filter_complex cmd,
      ''-map'', ''[vout]'', ''-map'', ''[aout]'']"

definition example_exec :: "string list \<Rightarrow> exec_result" where
  "example_exec args =
     (if args \<noteq> [] \<and> hd args = ''ffmpeg''
      then ExecExited \<lparr>returncode = 0, stderr_text = []\<rparr>
      else ExecNotStarted (FileNotFoundError (case args of [] \<Rightarrow> [] | p # _ \<Rightarrow> p)))"

text \<open>The diagnostic stream of the specification's parser example.\<close>

definition example_stream :: string where
  "example_stream = ''silence_start: 1.0\<newline>silence_end: 2.5\<newline>silence_start: 9.0\<newline>''"

definition example_env :: env where
  "example_env =
     \<lparr>env_fmt = example_fmt, env_fadd = exact_add, env_float = decimal_float,
      env_probe = example_probe, env_get_args = example_get_args, env_exec = example_exec\<rparr>"

section \<open>Properties of the interval algebra\<close>

subsection \<open>Merging: the loop and its recursion\<close>

lemma foldl_coalesce_step:
  "foldl (coalesce_step eps) (pre @ [cur]) rs = pre @ coalesce_from eps cur rs"
proof (induction rs arbitrary: pre cur)
  case Nil
  show ?case by simp
next
  case (Cons r rs)
  show ?case
  proof (cases "start r \<le> end' cur + eps")
    case True
    then have "coalesce_step eps (pre @ [cur]) r = pre @ [cur\<lparr>end' := max (end' cur) (end' r)\<rparr>]"
      by (simp add: coalesce_step_def)
    with True Cons.IH [of pre] show ?thesis by simp
  next
    case False
    then have "coalesce_step eps (pre @ [cur]) r = (pre @ [cur]) @ [r]"
      by (simp add: coalesce_step_def)
    with False Cons.IH [of "pre @ [cur]" r] show ?thesis by simp
  qed
qed

lemma coalesce_ranges_from:
  "coalesce_ranges eps xs =
     (case sort_key start xs of [] \<Rightarrow> [] | r # rs \<Rightarrow> coalesce_from eps r rs)"
proof (cases xs)
  case Nil
  then show ?thesis by (simp add: coalesce_ranges_def)
next
  case (Cons a as)
  then have ne: "sort_key start xs \<noteq> []" by (metis length_sort list.size(3) list.distinct(1) length_0_conv)
  then obtain r rs where rs: "sort_key start xs = r # rs" by (cases "sort_key start xs") auto
  have "foldl (coalesce_step eps) ([] @ [r]) rs = [] @ coalesce_from eps r rs"
    by (rule foldl_coalesce_step)
  with Cons rs show ?thesis by (simp add: coalesce_ranges_def)
qed

lemma coalesce_from_start_ge:
  "\<forall>r \<in> set rs. start cur \<le> start r \<Longrightarrow> sorted (map start rs) \<Longrightarrow>
   \<forall>g \<in> set (coalesce_from eps cur rs). start cur \<le> start g"
proof (induction rs arbitrary: cur)
  case Nil
  show ?case by simp
next
  case (Cons r rs)
  show ?case
  proof (cases "start r \<le> end' cur + eps")
    case True
    have "\<forall>g\<in>set (coalesce_from eps (cur\<lparr>end' := max (end' cur) (end' r)\<rparr>) rs).
            start (cur\<lparr>end' := max (end' cur) (end' r)\<rparr>) \<le> start g"
      using Cons.prems by (intro Cons.IH) auto
    with True show ?thesis by simp
  next
    case False
    have "\<forall>g\<in>set (coalesce_from eps r rs). start r \<le> start g"
      using Cons.prems by (intro Cons.IH) auto
    moreover have "start cur \<le> start r" using Cons.prems by simp
    ultimately show ?thesis using False by auto
  qed
qed

lemma coalesce_from_gaps:
  "sorted (map start (cur # rs)) \<Longrightarrow> gaps_exceed eps (coalesce_from eps cur rs)"
proof (induction rs arbitrary: cur)
  case Nil
  show ?case by (simp add: gaps_exceed_def)
next
  case (Cons r rs)
  show ?case
  proof (cases "start r \<le> end' cur + eps")
    case True
    have "gaps_exceed eps (coalesce_from eps (cur\<lparr>end' := max (end' cur) (end' r)\<rparr>) rs)"
      using Cons.prems by (intro Cons.IH) auto
    with True show ?thesis by simp
  next
    case False
    have g: "gaps_exceed eps (coalesce_from eps r rs)"
      using Cons.prems by (intro Cons.IH) auto
    have "\<forall>g\<in>set (coalesce_from eps r rs). start r \<le> start g"
      using Cons.prems by (intro coalesce_from_start_ge) auto
    with False have "\<forall>g\<in>set (coalesce_from eps r rs). end' cur + eps < start g"
      by fastforce
    with g False show ?thesis by (simp add: gaps_exceed_def)
  qed
qed

lemma coalesce_from_sorted:
  "sorted (map start (cur # rs)) \<Longrightarrow> sorted_by_start (coalesce_from eps cur rs)"
proof (induction rs arbitrary: cur)
  case Nil
  show ?case by (simp add: sorted_by_start_def)
next
  case (Cons r rs)
  show ?case
  proof (cases "start r \<le> end' cur + eps")
    case True
    have "sorted_by_start (coalesce_from eps (cur\<lparr>end' := max (end' cur) (end' r)\<rparr>) rs)"
      using Cons.prems by (intro Cons.IH) auto
    with True show ?thesis by simp
  next
    case False
    have g: "sorted_by_start (coalesce_from eps r rs)"
      using Cons.prems by (intro Cons.IH) auto
    have "\<forall>g\<in>set (coalesce_from eps r rs). start r \<le> start g"
      using Cons.prems by (intro coalesce_from_start_ge) auto
    moreover have "start cur \<le> start r" using Cons.prems by simp
    ultimately have "\<forall>g\<in>set (coalesce_from eps r rs). start cur \<le> start g"
      by fastforce
    with g False show ?thesis by (simp add: sorted_by_start_def)
  qed
qed

lemma coalesce_from_id:
  "gaps_exceed eps (cur # rs) \<Longrightarrow> coalesce_from eps cur rs = cur # rs"
  by (induction rs arbitrary: cur) (auto simp: gaps_exceed_def)

lemma coalesce_ranges_sorted: "sorted_by_start (coalesce_ranges eps xs)"
proof (cases "sort_key start xs")
  case Nil
  then show ?thesis by (simp add: coalesce_ranges_from sorted_by_start_def)
next
  case (Cons r rs)
  have "sorted (map start (sort_key start xs))" by simp
  with Cons have "sorted (map start (r # rs))" by simp
  then have "sorted_by_start (coalesce_from eps r rs)" by (rule coalesce_from_sorted)
  with Cons show ?thesis by (simp add: coalesce_ranges_from)
qed

lemma coalesce_ranges_gaps: "gaps_exceed eps (coalesce_ranges eps xs)"
proof (cases "sort_key start xs")
  case Nil
  then show ?thesis by (simp add: coalesce_ranges_from gaps_exceed_def)
next
  case (Cons r rs)
  have "sorted (map start (sort_key start xs))" by simp
  with Cons have "sorted (map start (r # rs))" by simp
  then have "gaps_exceed eps (coalesce_from eps r rs)" by (rule coalesce_from_gaps)
  with Cons show ?thesis by (simp add: coalesce_ranges_from)
qed

lemma coalesce_ranges_fixed:
  assumes "sorted_by_start ys" and "gaps_exceed eps ys"
  shows "coalesce_ranges eps ys = ys"
proof (cases ys)
  case Nil
  then show ?thesis by (simp add: coalesce_ranges_def)
next
  case (Cons r rs)
  from assms(1) have "sort_key start ys = ys"
    unfolding sorted_by_start_def by (rule sort_key_id_if_sorted)
  with Cons assms(2) show ?thesis
    by (simp add: coalesce_ranges_from coalesce_from_id)
qed

subsection \<open>Merging: what is covered\<close>

lemma coalesce_from_contains:
  "sorted (map start (cur # rs)) \<Longrightarrow> x \<in> set (cur # rs) \<Longrightarrow>
   \<exists>g \<in> set (coalesce_from eps cur rs). start g \<le> start x \<and> end' x \<le> end' g"
proof (induction rs arbitrary: cur x)
  case Nil
  then show ?case by simp
next
  case (Cons r rs)
  let ?cur' = "cur\<lparr>end' := max (end' cur) (end' r)\<rparr>"
  show ?case
  proof (cases "start r \<le> end' cur + eps")
    case True
    have srt: "sorted (map start (?cur' # rs))" using Cons.prems(1) by auto
    have "\<exists>y \<in> set (?cur' # rs). start y \<le> start x \<and> end' x \<le> end' y"
    proof (cases "x = cur \<or> x = r")
      case True
      then have "start ?cur' \<le> start x \<and> end' x \<le> end' ?cur'"
        using Cons.prems(1) by auto
      then show ?thesis by (meson list.set_intros(1))
    next
      case False
      with Cons.prems(2) have "x \<in> set rs" by simp
      then show ?thesis by auto
    qed
    then obtain y where y: "y \<in> set (?cur' # rs)" "start y \<le> start x" "end' x \<le> end' y"
      by blast
    from Cons.IH [OF srt y(1)] obtain g where
      "g \<in> set (coalesce_from eps ?cur' rs)" "start g \<le> start y" "end' y \<le> end' g"
      by blast
    with y True show ?thesis by (auto intro!: bexI [of _ g])
  next
    case False
    have srt: "sorted (map start (r # rs))" using Cons.prems(1) by auto
    show ?thesis
    proof (cases "x = cur")
      case True
      with False show ?thesis by simp
    next
      case ne: False
      with Cons.prems(2) have "x \<in> set (r # rs)" by simp
      from Cons.IH [OF srt this] False show ?thesis by auto
    qed
  qed
qed

lemma coalesce_ranges_contains:
  assumes "x \<in> set xs"
  shows "\<exists>g \<in> set (coalesce_ranges eps xs). start g \<le> start x \<and> end' x \<le> end' g"
proof (cases "sort_key start xs")
  case Nil
  with assms show ?thesis by (metis empty_iff list.set(1) set_sort)
next
  case (Cons r rs)
  have "sorted (map start (sort_key start xs))" by simp
  with Cons have srt: "sorted (map start (r # rs))" by simp
  from assms Cons have "x \<in> set (r # rs)" by (metis set_sort)
  from coalesce_from_contains [OF srt this] Cons show ?thesis
    by (simp add: coalesce_ranges_from)
qed

lemma coalesce_ranges_cover_sup: "cover xs \<subseteq> cover (coalesce_ranges eps xs)"
proof
  fix t assume "t \<in> cover xs"
  then obtain x where x: "x \<in> set xs" "start x \<le> t" "t < end' x"
    by (auto simp: cover_def points_def)
  from coalesce_ranges_contains [OF x(1)] obtain g where
    "g \<in> set (coalesce_ranges eps xs)" "start g \<le> start x" "end' x \<le> end' g" by blast
  with x show "t \<in> cover (coalesce_ranges eps xs)"
    by (auto simp: cover_def points_def intro!: bexI [of _ g])
qed

subsection \<open>Inverting\<close>

lemma foldl_invert_step:
  "(case foldl invert_step (keep, cur) rs of (k, c) \<Rightarrow>
      if c < duration then k @ [\<lparr>start = c, end' = duration\<rparr>] else k)
   = keep @ keep_from cur rs duration"
  by (induction rs arbitrary: keep cur) (simp_all add: invert_step_def)

lemma invert_ranges_keep_from: "invert_ranges remove duration = keep_from 0 remove duration"
  using foldl_invert_step [of duration "[]" 0 remove] by (simp add: invert_ranges_def)

lemma keep_from_bounds:
  "k \<in> set (keep_from cur rs duration) \<Longrightarrow> cur \<le> start k \<and> start k < end' k"
  by (induction rs arbitrary: cur) (fastforce split: if_splits)+

lemma keep_from_no_gap:
  "cur \<le> t \<Longrightarrow> t < duration \<Longrightarrow> t \<in> cover (keep_from cur rs duration) \<union> cover rs"
proof (induction rs arbitrary: cur)
  case Nil
  then show ?case by (simp add: cover_def points_def)
next
  case (Cons r rs)
  show ?case
  proof (cases "max cur (end' r) \<le> t")
    case True
    from Cons.IH [OF True Cons.prems(2)] show ?thesis
      by (auto simp: cover_def)
  next
    case False
    with Cons.prems(1) have lt: "t < end' r" by simp
    show ?thesis
    proof (cases "start r \<le> t")
      case True
      with lt show ?thesis by (simp add: cover_def points_def)
    next
      case False
      with Cons.prems(1) show ?thesis by (simp add: cover_def points_def)
    qed
  qed
qed

lemma interval_set_Cons:
  "interval_set (r # rs) \<longleftrightarrow>
     start r \<le> end' r \<and> (\<forall>x \<in> set rs. end' r \<le> start x) \<and> interval_set rs"
  by (auto simp: interval_set_def non_overlapping_def)

lemma keep_from_non_overlapping:
  "interval_set rs \<Longrightarrow> non_overlapping (keep_from cur rs duration)"
proof (induction rs arbitrary: cur)
  case Nil
  show ?case by (simp add: non_overlapping_def)
next
  case (Cons r rs)
  from Cons.prems have wf: "start r \<le> end' r" and rest: "interval_set rs"
    by (simp_all add: interval_set_Cons)
  have ih: "non_overlapping (keep_from (max cur (end' r)) rs duration)"
    by (rule Cons.IH [OF rest])
  have "\<forall>k \<in> set (keep_from (max cur (end' r)) rs duration). start r \<le> start k"
    using keep_from_bounds [of _ "max cur (end' r)" rs duration] wf by fastforce
  with ih show ?case by (simp add: non_overlapping_def)
qed

lemma keep_from_disjoint:
  "interval_set rs \<Longrightarrow> cover (keep_from cur rs duration) \<inter> cover rs = {}"
proof (induction rs arbitrary: cur)
  case Nil
  show ?case by (simp add: cover_def)
next
  case (Cons r rs)
  from Cons.prems have wf: "start r \<le> end' r" and later: "\<forall>x \<in> set rs. end' r \<le> start x"
    and rest: "interval_set rs"
    by (simp_all add: interval_set_Cons)
  let ?K = "keep_from (max cur (end' r)) rs duration"
  have ih: "cover ?K \<inter> cover rs = {}" by (rule Cons.IH [OF rest])
  have k_r: "cover ?K \<inter> points r = {}"
    using keep_from_bounds [of _ "max cur (end' r)" rs duration]
    by (fastforce simp: cover_def points_def)
  have new_r: "points \<lparr>start = cur, end' = start r\<rparr> \<inter> points r = {}"
    by (auto simp: points_def)
  have new_rs: "points \<lparr>start = cur, end' = start r\<rparr> \<inter> cover rs = {}"
    using wf later by (fastforce simp: cover_def points_def)
  have split: "cover (r # rs) = points r \<union> cover rs" by (simp add: cover_def)
  show ?case
  proof (cases "start r > cur")
    case True
    then have "cover (keep_from cur (r # rs) duration) =
        points \<lparr>start = cur, end' = start r\<rparr> \<union> cover ?K"
      by (simp add: cover_def)
    with ih k_r new_r new_rs split show ?thesis by blast
  next
    case False
    then have "cover (keep_from cur (r # rs) duration) = cover ?K" by simp
    with ih k_r split show ?thesis by blast
  qed
qed

lemma non_overlapping_sorted:
  "non_overlapping ks \<Longrightarrow> \<forall>k \<in> set ks. start k < end' k \<Longrightarrow> sorted_by_start ks"
  unfolding non_overlapping_def sorted_by_start_def sorted_map
  by (induction ks) fastforce+

subsection \<open>Merged lists as remove-sets, and the examples of the specification\<close>

lemma coalesce_from_wf:
  "start cur \<le> end' cur \<Longrightarrow> \<forall>r \<in> set rs. start r \<le> end' r \<Longrightarrow>
   \<forall>g \<in> set (coalesce_from eps cur rs). start g \<le> end' g"
proof (induction rs arbitrary: cur)
  case Nil
  then show ?case by simp
next
  case (Cons r rs)
  show ?case
  proof (cases "start r \<le> end' cur + eps")
    case True
    have "\<forall>g \<in> set (coalesce_from eps (cur\<lparr>end' := max (end' cur) (end' r)\<rparr>) rs).
            start g \<le> end' g"
      using Cons.prems by (intro Cons.IH) auto
    with True show ?thesis by simp
  next
    case False
    have "\<forall>g \<in> set (coalesce_from eps r rs). start g \<le> end' g"
      using Cons.prems by (intro Cons.IH) auto
    with False Cons.prems(1) show ?thesis by simp
  qed
qed

lemma gaps_exceed_non_overlapping:
  "0 \<le> eps \<Longrightarrow> gaps_exceed eps rs \<Longrightarrow> non_overlapping rs"
  unfolding gaps_exceed_def non_overlapping_def
  by (rule sorted_wrt_mono_rel [where P = "\<lambda>a b. end' a + eps < start b"]) auto

lemma coalesce_ranges_interval_set:
  assumes "\<forall>r \<in> set xs. start r \<le> end' r" and "0 \<le> eps"
  shows "interval_set (coalesce_ranges eps xs)"
proof -
  have n: "non_overlapping (coalesce_ranges eps xs)"
    using assms(2) coalesce_ranges_gaps by (rule gaps_exceed_non_overlapping)
  have "\<forall>g \<in> set (coalesce_ranges eps xs). start g \<le> end' g"
  proof (cases "sort_key start xs")
    case Nil
    then show ?thesis by (simp add: coalesce_ranges_from)
  next
    case (Cons r rs)
    have "set (r # rs) = set xs" using Cons by (metis set_sort)
    with assms(1) have "start r \<le> end' r" and "\<forall>x \<in> set rs. start x \<le> end' x" by auto
    then have "\<forall>g \<in> set (coalesce_from eps r rs). start g \<le> end' g"
      by (rule coalesce_from_wf)
    with Cons show ?thesis by (simp add: coalesce_ranges_from)
  qed
  with n show ?thesis by (simp add: interval_set_def)
qed

lemma coalesce_ranges_example:
  "coalesce_ranges default_eps [\<lparr>start = 2, end' = 4\<rparr>, \<lparr>start = 3, end' = 5\<rparr>]
     = [\<lparr>start = 2, end' = 5\<rparr>]"
  by (simp add: coalesce_ranges_def coalesce_step_def default_eps_def)

lemma coalesce_ranges_touching_example:
  "coalesce_ranges default_eps
     [\<lparr>start = 0, end' = 2\<rparr>, \<lparr>start = 2, end' = 5\<rparr>, \<lparr>start = 4, end' = 6\<rparr>]
     = [\<lparr>start = 0, end' = 6\<rparr>]"
  by (simp add: coalesce_ranges_def coalesce_step_def default_eps_def)

lemma invert_ranges_example:
  "invert_ranges [\<lparr>start = 2, end' = 5\<rparr>] 10
     = [\<lparr>start = 0, end' = 2\<rparr>, \<lparr>start = 5, end' = 10\<rparr>]"
  by (simp add: invert_ranges_def invert_step_def)

lemma invert_ranges_reversed_example:
  "invert_ranges (coalesce_ranges default_eps [\<lparr>start = 7, end' = 3\<rparr>]) 10
     = [\<lparr>start = 0, end' = 7\<rparr>, \<lparr>start = 3, end' = 10\<rparr>]"
  by (simp add: coalesce_ranges_def invert_ranges_def invert_step_def)

subsection \<open>Merging with the float sum\<close>

text \<open>
  With the exact sum as the float sum, the functions with the parameter are the
  functions on exact sums; what follows holds for every float addition.
\<close>

lemma coalesce_step_fl_exact: "coalesce_step_fl (+) eps = coalesce_step eps"
  by (intro ext) (simp add: coalesce_step_fl_def coalesce_step_def)

lemma coalesce_ranges_fl_exact: "coalesce_ranges_fl (+) eps xs = coalesce_ranges eps xs"
  by (simp add: coalesce_ranges_fl_def coalesce_ranges_def coalesce_step_fl_exact)

lemma foldl_coalesce_step_fl:
  "foldl (coalesce_step_fl fadd eps) (pre @ [cur]) rs = pre @ coalesce_from_fl fadd eps cur rs"
proof (induction rs arbitrary: pre cur)
  case Nil
  show ?case by simp
next
  case (Cons r rs)
  show ?case
  proof (cases "start r \<le> fadd (end' cur) eps")
    case True
    then have "coalesce_step_fl fadd eps (pre @ [cur]) r
        = pre @ [cur\<lparr>end' := max (end' cur) (end' r)\<rparr>]"
      by (simp add: coalesce_step_fl_def)
    with True Cons.IH [of pre] show ?thesis by simp
  next
    case False
    then have "coalesce_step_fl fadd eps (pre @ [cur]) r = (pre @ [cur]) @ [r]"
      by (simp add: coalesce_step_fl_def)
    with False Cons.IH [of "pre @ [cur]" r] show ?thesis by simp
  qed
qed

lemma coalesce_ranges_fl_from:
  "coalesce_ranges_fl fadd eps xs =
     (case sort_key start xs of [] \<Rightarrow> [] | r # rs \<Rightarrow> coalesce_from_fl fadd eps r rs)"
proof (cases xs)
  case Nil
  then show ?thesis by (simp add: coalesce_ranges_fl_def)
next
  case (Cons a as)
  then have ne: "sort_key start xs \<noteq> []"
    by (metis length_sort list.size(3) list.distinct(1) length_0_conv)
  then obtain r rs where rs: "sort_key start xs = r # rs" by (cases "sort_key start xs") auto
  have "foldl (coalesce_step_fl fadd eps) ([] @ [r]) rs = [] @ coalesce_from_fl fadd eps r rs"
    by (rule foldl_coalesce_step_fl)
  with Cons rs show ?thesis by (simp add: coalesce_ranges_fl_def)
qed

text \<open>
  One statement about the recursion carries the four facts that need the list to be
  ascending by start.
\<close>

lemma coalesce_from_fl_props:
  assumes "sorted (map start (cur # rs))"
  shows "(\<forall>g \<in> set (coalesce_from_fl fadd eps cur rs). start cur \<le> start g) \<and>
         gaps_exceed_fl fadd eps (coalesce_from_fl fadd eps cur rs) \<and>
         sorted_by_start (coalesce_from_fl fadd eps cur rs) \<and>
         (\<forall>x \<in> set (cur # rs). \<exists>g \<in> set (coalesce_from_fl fadd eps cur rs).
            start g \<le> start x \<and> end' x \<le> end' g)"
  using assms
proof (induction rs arbitrary: cur)
  case Nil
  show ?case by (simp add: gaps_exceed_fl_def sorted_by_start_def)
next
  case (Cons r rs)
  let ?cur' = "cur\<lparr>end' := max (end' cur) (end' r)\<rparr>"
  from Cons.prems have le: "start cur \<le> start r" by simp
  show ?case
  proof (cases "start r \<le> fadd (end' cur) eps")
    case True
    have srt: "sorted (map start (?cur' # rs))" using Cons.prems by auto
    note ih = Cons.IH [OF srt]
    have out: "coalesce_from_fl fadd eps cur (r # rs) = coalesce_from_fl fadd eps ?cur' rs"
      using True by simp
    have a: "\<forall>g \<in> set (coalesce_from_fl fadd eps ?cur' rs). start cur \<le> start g"
      using ih by simp
    have d: "\<forall>x \<in> set (cur # r # rs). \<exists>g \<in> set (coalesce_from_fl fadd eps ?cur' rs).
            start g \<le> start x \<and> end' x \<le> end' g"
    proof
      fix x assume x: "x \<in> set (cur # r # rs)"
      have "\<exists>y \<in> set (?cur' # rs). start y \<le> start x \<and> end' x \<le> end' y"
      proof (cases "x = cur \<or> x = r")
        case True
        then have "start ?cur' \<le> start x \<and> end' x \<le> end' ?cur'" using le by auto
        then show ?thesis by (meson list.set_intros(1))
      next
        case False
        with x have "x \<in> set rs" by simp
        then show ?thesis by auto
      qed
      then obtain y where y: "y \<in> set (?cur' # rs)" "start y \<le> start x" "end' x \<le> end' y"
        by blast
      from ih y(1) obtain g where
        "g \<in> set (coalesce_from_fl fadd eps ?cur' rs)" "start g \<le> start y" "end' y \<le> end' g"
        by blast
      with y show "\<exists>g \<in> set (coalesce_from_fl fadd eps ?cur' rs).
          start g \<le> start x \<and> end' x \<le> end' g"
        by (auto intro!: bexI [of _ g])
    qed
    from a d ih show ?thesis unfolding out by blast
  next
    case False
    have srt: "sorted (map start (r # rs))" using Cons.prems by auto
    note ih = Cons.IH [OF srt]
    have out: "coalesce_from_fl fadd eps cur (r # rs) = cur # coalesce_from_fl fadd eps r rs"
      using False by simp
    have ge: "\<forall>g \<in> set (coalesce_from_fl fadd eps r rs). start r \<le> start g" using ih by blast
    have a: "\<forall>g \<in> set (cur # coalesce_from_fl fadd eps r rs). start cur \<le> start g"
      using ge le by fastforce
    have "\<forall>g \<in> set (coalesce_from_fl fadd eps r rs). fadd (end' cur) eps < start g"
      using ge False by fastforce
    then have b: "gaps_exceed_fl fadd eps (cur # coalesce_from_fl fadd eps r rs)"
      using ih by (simp add: gaps_exceed_fl_def)
    have c: "sorted_by_start (cur # coalesce_from_fl fadd eps r rs)"
      using ih a by (simp add: sorted_by_start_def)
    have d: "\<forall>x \<in> set (cur # r # rs). \<exists>g \<in> set (cur # coalesce_from_fl fadd eps r rs).
            start g \<le> start x \<and> end' x \<le> end' g"
    proof
      fix x assume x: "x \<in> set (cur # r # rs)"
      show "\<exists>g \<in> set (cur # coalesce_from_fl fadd eps r rs).
          start g \<le> start x \<and> end' x \<le> end' g"
      proof (cases "x = cur")
        case True
        then show ?thesis by simp
      next
        case ne: False
        with x have "x \<in> set (r # rs)" by simp
        with ih show ?thesis by auto
      qed
    qed
    from a b c d show ?thesis unfolding out by blast
  qed
qed

lemma coalesce_from_fl_reach:
  "cover (coalesce_from_fl fadd eps cur rs) \<subseteq> cover_reach fadd eps (cur # rs) \<and>
   cover_reach fadd eps (coalesce_from_fl fadd eps cur rs) \<subseteq> cover_reach fadd eps (cur # rs)"
proof (induction rs arbitrary: cur)
  case Nil
  show ?case by (auto simp: cover_def cover_reach_def points_def)
next
  case (Cons r rs)
  let ?cur' = "cur\<lparr>end' := max (end' cur) (end' r)\<rparr>"
  show ?case
  proof (cases "start r \<le> fadd (end' cur) eps")
    case True
    have b: "{start ?cur' ..< max (end' ?cur') (fadd (end' ?cur') eps)}
        \<subseteq> cover_reach fadd eps [cur, r]"
    proof
      fix t assume t: "t \<in> {start ?cur' ..< max (end' ?cur') (fadd (end' ?cur') eps)}"
      show "t \<in> cover_reach fadd eps [cur, r]"
      proof (cases "t < max (end' cur) (fadd (end' cur) eps)")
        case True
        with t show ?thesis by (simp add: cover_reach_def)
      next
        case False
        then have ge: "end' cur \<le> t" "fadd (end' cur) eps \<le> t" by simp_all
        with \<open>start r \<le> fadd (end' cur) eps\<close> have sr: "start r \<le> t" by simp
        have "t < max (end' r) (fadd (end' r) eps)"
        proof (cases "end' cur \<le> end' r")
          case True
          then have "max (end' cur) (end' r) = end' r" by simp
          with t show ?thesis by simp
        next
          case le: False
          then have "max (end' cur) (end' r) = end' cur" by simp
          with t False show ?thesis by simp
        qed
        with sr show ?thesis by (simp add: cover_reach_def)
      qed
    qed
    have c: "cover_reach fadd eps (?cur' # rs) \<subseteq> cover_reach fadd eps (cur # r # rs)"
      using b by (auto simp: cover_reach_def)
    from Cons.IH [of ?cur'] c True show ?thesis by auto
  next
    case False
    have "points cur \<subseteq> {start cur ..< max (end' cur) (fadd (end' cur) eps)}"
      by (auto simp: points_def)
    with Cons.IH [of r] False show ?thesis
      by (auto simp: cover_def cover_reach_def)
  qed
qed

lemma cover_reach_sort: "cover_reach fadd eps (sort_key start xs) = cover_reach fadd eps xs"
  by (simp add: cover_reach_def)

lemma coalesce_ranges_fl_props:
  "sorted_by_start (coalesce_ranges_fl fadd eps xs) \<and>
   gaps_exceed_fl fadd eps (coalesce_ranges_fl fadd eps xs) \<and>
   (\<forall>x \<in> set xs. \<exists>g \<in> set (coalesce_ranges_fl fadd eps xs).
      start g \<le> start x \<and> end' x \<le> end' g) \<and>
   cover (coalesce_ranges_fl fadd eps xs) \<subseteq> cover_reach fadd eps xs"
proof (cases "sort_key start xs")
  case Nil
  then have "xs = []" by (metis length_sort length_0_conv)
  then show ?thesis
    by (simp add: coalesce_ranges_fl_def sorted_by_start_def gaps_exceed_fl_def cover_def)
next
  case (Cons r rs)
  have "sorted (map start (sort_key start xs))" by simp
  with Cons have srt: "sorted (map start (r # rs))" by simp
  have set_eq: "set (r # rs) = set xs" using Cons by (metis set_sort)
  have out: "coalesce_ranges_fl fadd eps xs = coalesce_from_fl fadd eps r rs"
    using Cons by (simp add: coalesce_ranges_fl_from)
  have reach: "cover_reach fadd eps (r # rs) = cover_reach fadd eps xs"
    using cover_reach_sort [of fadd eps xs] Cons by simp
  from coalesce_from_fl_props [OF srt, of fadd eps] coalesce_from_fl_reach [of fadd eps r rs]
  show ?thesis unfolding out set_eq [symmetric] reach [symmetric] by blast
qed

lemma cover_contained:
  assumes "\<forall>x \<in> set xs. \<exists>g \<in> set ys. start g \<le> start x \<and> end' x \<le> end' g"
  shows "cover xs \<subseteq> cover ys"
proof
  fix t assume "t \<in> cover xs"
  then obtain x where x: "x \<in> set xs" "start x \<le> t" "t < end' x"
    by (auto simp: cover_def points_def)
  from assms x(1) obtain g where "g \<in> set ys" "start g \<le> start x" "end' x \<le> end' g" by blast
  with x show "t \<in> cover ys"
    by (auto simp: cover_def points_def intro!: bexI [of _ g])
qed

lemma cover_reach_no_raise:
  assumes "\<forall>x. fadd x eps \<le> x"
  shows "cover_reach fadd eps xs = cover xs"
proof -
  have "max (end' r) (fadd (end' r) eps) = end' r" for r :: interval
    using assms [rule_format, of "end' r"] by linarith
  then show ?thesis by (simp add: cover_reach_def cover_def points_def)
qed

lemma coalesce_from_fl_starts:
  "start ` set (coalesce_from_fl fadd eps cur rs) \<subseteq> start ` set (cur # rs)"
proof (induction rs arbitrary: cur)
  case Nil
  show ?case by simp
next
  case (Cons r rs)
  show ?case
  proof (cases "start r \<le> fadd (end' cur) eps")
    case True
    from Cons.IH [of "cur\<lparr>end' := max (end' cur) (end' r)\<rparr>"] True show ?thesis by auto
  next
    case False
    from Cons.IH [of r] False show ?thesis by auto
  qed
qed

lemma coalesce_ranges_fl_starts:
  "start ` set (coalesce_ranges_fl fadd eps xs) \<subseteq> start ` set xs"
proof (cases "sort_key start xs")
  case Nil
  then show ?thesis by (simp add: coalesce_ranges_fl_from)
next
  case (Cons r rs)
  have "set (r # rs) = set xs" using Cons by (metis set_sort)
  then have "start ` set (r # rs) = start ` set xs" by (rule arg_cong)
  with coalesce_from_fl_starts [of fadd eps r rs]
  have "start ` set (coalesce_from_fl fadd eps r rs) \<subseteq> start ` set xs" by (simp only:)
  with Cons show ?thesis by (simp add: coalesce_ranges_fl_from)
qed

text \<open>
  Rounding a sum to the nearest float never takes it below a float that the exact sum
  has reached. Under that property of the float sum, a gap the test of the loop has
  found is a gap of more than the tolerance.
\<close>

lemma gaps_exceed_fl_exact:
  assumes "\<forall>g \<in> set ys. start g \<in> F"
    and "\<forall>y \<in> F. \<forall>x. y \<le> x + eps \<longrightarrow> y \<le> fadd x eps"
    and "gaps_exceed_fl fadd eps ys"
  shows "gaps_exceed eps ys"
proof -
  have "sorted_wrt (\<lambda>a b. end' a + eps < start b) ys"
  proof (rule sorted_wrt_mono_rel [where P = "\<lambda>a b. fadd (end' a) eps < start b"])
    fix a b assume "a \<in> set ys" and b: "b \<in> set ys" and lt: "fadd (end' a) eps < start b"
    from assms(1) b have "start b \<in> F" by blast
    with assms(2) have "start b \<le> end' a + eps \<longrightarrow> start b \<le> fadd (end' a) eps" by blast
    with lt show "end' a + eps < start b" by linarith
  next
    from assms(3) show "sorted_wrt (\<lambda>a b. fadd (end' a) eps < start b) ys"
      by (simp add: gaps_exceed_fl_def)
  qed
  then show ?thesis by (simp add: gaps_exceed_def)
qed

lemma coalesce_from_fl_id:
  "gaps_exceed_fl fadd eps (cur # rs) \<Longrightarrow> coalesce_from_fl fadd eps cur rs = cur # rs"
  by (induction rs arbitrary: cur) (auto simp: gaps_exceed_fl_def)

lemma coalesce_ranges_fl_idempotent:
  "coalesce_ranges_fl fadd eps (coalesce_ranges_fl fadd eps xs) = coalesce_ranges_fl fadd eps xs"
proof (cases "coalesce_ranges_fl fadd eps xs")
  case Nil
  then show ?thesis by (simp add: coalesce_ranges_fl_def)
next
  case (Cons r rs)
  from coalesce_ranges_fl_props [of fadd eps xs]
  have s: "sorted (map start (coalesce_ranges_fl fadd eps xs))"
    and g: "gaps_exceed_fl fadd eps (coalesce_ranges_fl fadd eps xs)"
    by (simp_all add: sorted_by_start_def)
  from s have "sort_key start (coalesce_ranges_fl fadd eps xs) = coalesce_ranges_fl fadd eps xs"
    by (rule sort_key_id_if_sorted)
  with Cons g show ?thesis
    by (simp add: coalesce_ranges_fl_from [of fadd eps "r # rs"] coalesce_from_fl_id)
qed

section \<open>The claims about the interval algebra\<close>

text \<open>
  C8. Merging is idempotent: for every list of intervals and every fixed tolerance,
  merging the merged list gives the merged list again.
\<close>

theorem coalesce_ranges_idempotent:
  "coalesce_ranges eps (coalesce_ranges eps xs) = coalesce_ranges eps xs"
  by (rule coalesce_ranges_fixed [OF coalesce_ranges_sorted coalesce_ranges_gaps])

theorem coalesce_ranges_idempotent_witness:
  "coalesce_ranges default_eps
     (coalesce_ranges default_eps [\<lparr>start = 3, end' = 5\<rparr>, \<lparr>start = 2, end' = 4\<rparr>, \<lparr>start = 8, end' = 9\<rparr>])
   = [\<lparr>start = 2, end' = 5\<rparr>, \<lparr>start = 8, end' = 9\<rparr>]"
  using coalesce_ranges_idempotent
    [of default_eps "[\<lparr>start = 3, end' = 5\<rparr>, \<lparr>start = 2, end' = 4\<rparr>, \<lparr>start = 8, end' = 9\<rparr>]"]
  by (simp add: coalesce_ranges_def coalesce_step_def default_eps_def)

text \<open>
  C3, as stated, asks that the merged list covers exactly the time points of the input
  ranges. With the tolerance 1/1024 the two ranges from 0 to 1 and from 1 + 1/2048 to 2
  are merged into the range from 0 to 2, which covers the instant 1 + 1/4096 that no
  input range holds. All the numbers are floats and the one sum, 1 + 1/1024, is exact.
\<close>

theorem coalesce_cover_counterexample:
  "cover (coalesce_ranges_fl exact_add (1 / 1024)
            [\<lparr>start = 0, end' = 1\<rparr>, \<lparr>start = 2049 / 2048, end' = 2\<rparr>])
   \<noteq> cover [\<lparr>start = 0, end' = 1\<rparr>, \<lparr>start = 2049 / 2048, end' = 2\<rparr>]"
proof -
  have m: "coalesce_ranges_fl exact_add (1 / 1024)
      [\<lparr>start = 0, end' = 1\<rparr>, \<lparr>start = 2049 / 2048, end' = 2\<rparr>] = [\<lparr>start = 0, end' = 2\<rparr>]"
    by (simp add: coalesce_ranges_fl_def coalesce_step_fl_def exact_add_def)
  have "(4097 / 4096 :: real) \<in> cover [\<lparr>start = 0, end' = 2\<rparr>]"
    by (simp add: cover_def points_def)
  moreover have "(4097 / 4096 :: real) \<notin>
      cover [\<lparr>start = 0, end' = 1\<rparr>, \<lparr>start = 2049 / 2048, end' = 2\<rparr>]"
    by (simp add: cover_def points_def)
  ultimately show ?thesis using m by metis
qed

text \<open>
  C3, amended. For every list of intervals, every tolerance and every float addition,
  the merged list is ascending by start, every later interval starts after the float
  sum of the tolerance and the end of every earlier one, every time point of an input
  range is covered, and every covered time point lies from the start of an input range
  up to its end or up to the float sum of its end and the tolerance; when adding the
  tolerance raises no float (a tolerance of zero or below), the covered time points are
  exactly those of the input ranges; and when the starts are floats and the float sum
  is not below a float that the exact sum has reached (as rounding to the nearest float
  gives), every later interval starts more than the tolerance after the end of every
  earlier one.
\<close>

theorem coalesce_ranges_spec:
  "sorted_by_start (coalesce_ranges_fl fadd eps xs) \<and>
   gaps_exceed_fl fadd eps (coalesce_ranges_fl fadd eps xs) \<and>
   cover xs \<subseteq> cover (coalesce_ranges_fl fadd eps xs) \<and>
   cover (coalesce_ranges_fl fadd eps xs) \<subseteq> cover_reach fadd eps xs \<and>
   ((\<forall>x. fadd x eps \<le> x) \<longrightarrow> cover (coalesce_ranges_fl fadd eps xs) = cover xs) \<and>
   ((\<forall>x \<in> set xs. start x \<in> F) \<and> (\<forall>y \<in> F. \<forall>x. y \<le> x + eps \<longrightarrow> y \<le> fadd x eps) \<longrightarrow>
      gaps_exceed eps (coalesce_ranges_fl fadd eps xs))"
proof -
  note p = coalesce_ranges_fl_props [of fadd eps xs]
  have ex: "(\<forall>x \<in> set xs. start x \<in> F) \<and> (\<forall>y \<in> F. \<forall>x. y \<le> x + eps \<longrightarrow> y \<le> fadd x eps) \<longrightarrow>
      gaps_exceed eps (coalesce_ranges_fl fadd eps xs)"
  proof
    assume h: "(\<forall>x \<in> set xs. start x \<in> F) \<and> (\<forall>y \<in> F. \<forall>x. y \<le> x + eps \<longrightarrow> y \<le> fadd x eps)"
    with coalesce_ranges_fl_starts [of fadd eps xs]
    have "\<forall>g \<in> set (coalesce_ranges_fl fadd eps xs). start g \<in> F" by auto
    with h p show "gaps_exceed eps (coalesce_ranges_fl fadd eps xs)"
      by (intro gaps_exceed_fl_exact [where F = F and fadd = fadd]) blast+
  qed
  from p have sup: "cover xs \<subseteq> cover (coalesce_ranges_fl fadd eps xs)"
    by (intro cover_contained) blast
  have "(\<forall>x. fadd x eps \<le> x) \<longrightarrow> cover (coalesce_ranges_fl fadd eps xs) = cover xs"
  proof
    assume "\<forall>x. fadd x eps \<le> x"
    then have "cover_reach fadd eps xs = cover xs" by (rule cover_reach_no_raise)
    with p sup show "cover (coalesce_ranges_fl fadd eps xs) = cover xs" by auto
  qed
  with p sup ex show ?thesis by blast
qed

theorem coalesce_ranges_spec_witness:
  "(\<forall>x. exact_add x 0 \<le> x) \<and>
   gaps_exceed 0 [\<lparr>start = 0, end' = 3\<rparr>, \<lparr>start = 4, end' = 6\<rparr>] \<and>
   coalesce_ranges_fl exact_add 0
     [\<lparr>start = 4, end' = 6\<rparr>, \<lparr>start = 0, end' = 2\<rparr>, \<lparr>start = 2, end' = 3\<rparr>]
     = [\<lparr>start = 0, end' = 3\<rparr>, \<lparr>start = 4, end' = 6\<rparr>] \<and>
   sorted_by_start [\<lparr>start = 0, end' = 3\<rparr>, \<lparr>start = 4, end' = 6\<rparr>] \<and>
   gaps_exceed_fl exact_add 0 [\<lparr>start = 0, end' = 3\<rparr>, \<lparr>start = 4, end' = 6\<rparr>] \<and>
   cover [\<lparr>start = 0, end' = 3\<rparr>, \<lparr>start = 4, end' = 6\<rparr>]
     = cover [\<lparr>start = 4, end' = 6\<rparr>, \<lparr>start = 0, end' = 2\<rparr>, \<lparr>start = 2, end' = 3\<rparr>]"
proof -
  have h: "\<forall>x. exact_add x 0 \<le> x" by (simp add: exact_add_def)
  have m: "coalesce_ranges_fl exact_add 0
      [\<lparr>start = 4, end' = 6\<rparr>, \<lparr>start = 0, end' = 2\<rparr>, \<lparr>start = 2, end' = 3\<rparr>]
     = [\<lparr>start = 0, end' = 3\<rparr>, \<lparr>start = 4, end' = 6\<rparr>]"
    by (simp add: coalesce_ranges_fl_def coalesce_step_fl_def exact_add_def)
  have f: "\<forall>y \<in> UNIV. \<forall>x. y \<le> x + 0 \<longrightarrow> y \<le> exact_add x (0 :: real)"
    by (simp add: exact_add_def)
  have u: "\<forall>x \<in> set [\<lparr>start = 4, end' = 6\<rparr>, \<lparr>start = 0, end' = 2\<rparr>, \<lparr>start = 2, end' = 3\<rparr>].
      start x \<in> (UNIV :: real set)"
    by simp
  from coalesce_ranges_spec
    [of exact_add 0 "[\<lparr>start = 4, end' = 6\<rparr>, \<lparr>start = 0, end' = 2\<rparr>, \<lparr>start = 2, end' = 3\<rparr>]" UNIV]
  have "gaps_exceed 0 [\<lparr>start = 0, end' = 3\<rparr>, \<lparr>start = 4, end' = 6\<rparr>]"
    unfolding m using f u by blast
  moreover
  from coalesce_ranges_spec
    [of exact_add 0 "[\<lparr>start = 4, end' = 6\<rparr>, \<lparr>start = 0, end' = 2\<rparr>, \<lparr>start = 2, end' = 3\<rparr>]" UNIV]
  have "sorted_by_start [\<lparr>start = 0, end' = 3\<rparr>, \<lparr>start = 4, end' = 6\<rparr>]"
    and "gaps_exceed_fl exact_add 0 [\<lparr>start = 0, end' = 3\<rparr>, \<lparr>start = 4, end' = 6\<rparr>]"
    and "cover [\<lparr>start = 0, end' = 3\<rparr>, \<lparr>start = 4, end' = 6\<rparr>]
     = cover [\<lparr>start = 4, end' = 6\<rparr>, \<lparr>start = 0, end' = 2\<rparr>, \<lparr>start = 2, end' = 3\<rparr>]"
    unfolding m using h by blast+
  ultimately show ?thesis using h m by blast
qed

text \<open>
  C4, as stated, asks that merging behaves as if the intervals with end at or before
  start were absent. Merging the single interval from 5 to 5, or from 7 to 3, returns
  it, while merging the list without it returns the empty list.
\<close>

theorem degenerate_not_dropped_counterexample:
  "coalesce_ranges default_eps [\<lparr>start = 5, end' = 5\<rparr>]
     \<noteq> coalesce_ranges default_eps (drop_degenerate [\<lparr>start = 5, end' = 5\<rparr>]) \<and>
   coalesce_ranges default_eps [\<lparr>start = 7, end' = 3\<rparr>]
     \<noteq> coalesce_ranges default_eps (drop_degenerate [\<lparr>start = 7, end' = 3\<rparr>])"
  by (simp add: coalesce_ranges_def drop_degenerate_def)

text \<open>
  C4, amended. Merging drops no interval: a list of one interval, degenerate or not, is
  returned as it is, and every input interval lies within an interval of the merged
  list (which starts no later and ends no earlier). The only clamp is in the loop over
  the keep-intervals, where each trim runs from \<open>ss = max 0 start\<close> to
  \<open>to = max ss end\<close>, so that \<open>0 \<le> ss \<le> to\<close>.
\<close>

theorem degenerate_kept:
  "coalesce_ranges eps [r] = [r] \<and>
   (\<forall>x \<in> set xs. \<exists>g \<in> set (coalesce_ranges eps xs). start g \<le> start x \<and> end' x \<le> end' g) \<and>
   0 \<le> fst (trim_bounds seg) \<and> fst (trim_bounds seg) \<le> snd (trim_bounds seg)"
proof -
  have a: "coalesce_ranges eps [r] = [r]" by (simp add: coalesce_ranges_def)
  have b: "\<forall>x \<in> set xs. \<exists>g \<in> set (coalesce_ranges eps xs). start g \<le> start x \<and> end' x \<le> end' g"
    using coalesce_ranges_contains by blast
  have c: "0 \<le> fst (trim_bounds seg) \<and> fst (trim_bounds seg) \<le> snd (trim_bounds seg)"
    by (simp add: trim_bounds_def Let_def)
  from a b c show ?thesis by blast
qed

theorem degenerate_kept_witness:
  "coalesce_ranges default_eps [\<lparr>start = 5, end' = 5\<rparr>] = [\<lparr>start = 5, end' = 5\<rparr>] \<and>
   (\<exists>g \<in> set (coalesce_ranges default_eps [\<lparr>start = 7, end' = 3\<rparr>]).
      start g \<le> 7 \<and> 3 \<le> end' g) \<and>
   trim_bounds \<lparr>start = 7, end' = 3\<rparr> = (7, 7)"
  using degenerate_kept [of default_eps "\<lparr>start = 5, end' = 5\<rparr>" "[\<lparr>start = 7, end' = 3\<rparr>]"
      "\<lparr>start = 7, end' = 3\<rparr>"]
  by (simp add: trim_bounds_def)

text \<open>
  C1. For every merged, sorted remove-set \<open>R\<close> (each interval ends at or after its
  start, none reaches into a later one) and every duration \<open>D \<ge> 0\<close>, the keep-intervals
  of \<open>invert_ranges R D\<close> are ascending by start, none reaches into a later one and each
  has positive length; keep-intervals and remove-intervals together cover every instant
  from 0 up to \<open>D\<close>, and no instant is both kept and removed. For the empty remove-set
  and \<open>D > 0\<close> the result is the single interval from 0 to \<open>D\<close>.
\<close>

theorem invert_ranges_spec:
  assumes "interval_set R" and "0 \<le> D"
  shows "sorted_by_start (invert_ranges R D) \<and>
         non_overlapping (invert_ranges R D) \<and>
         (\<forall>k \<in> set (invert_ranges R D). start k < end' k) \<and>
         (cover (invert_ranges R D) \<union> cover R) \<inter> {0 ..< D} = {0 ..< D} \<and>
         cover (invert_ranges R D) \<inter> cover R = {} \<and>
         (R = [] \<and> 0 < D \<longrightarrow> invert_ranges R D = [\<lparr>start = 0, end' = D\<rparr>])"
proof -
  have b: "\<forall>k \<in> set (invert_ranges R D). start k < end' k"
    using keep_from_bounds [of _ 0 R D] by (simp add: invert_ranges_keep_from)
  have n: "non_overlapping (invert_ranges R D)"
    using keep_from_non_overlapping [OF assms(1)] by (simp add: invert_ranges_keep_from)
  have s: "sorted_by_start (invert_ranges R D)"
    by (rule non_overlapping_sorted [OF n b])
  have "{0 ..< D} \<subseteq> cover (invert_ranges R D) \<union> cover R"
  proof
    fix t :: real
    assume "t \<in> {0 ..< D}"
    then have "0 \<le> t" and "t < D" by simp_all
    then show "t \<in> cover (invert_ranges R D) \<union> cover R"
      unfolding invert_ranges_keep_from by (rule keep_from_no_gap)
  qed
  then have g: "(cover (invert_ranges R D) \<union> cover R) \<inter> {0 ..< D} = {0 ..< D}"
    by blast
  have d: "cover (invert_ranges R D) \<inter> cover R = {}"
    using keep_from_disjoint [OF assms(1)] by (simp add: invert_ranges_keep_from)
  have e: "R = [] \<and> 0 < D \<longrightarrow> invert_ranges R D = [\<lparr>start = 0, end' = D\<rparr>]"
    by (simp add: invert_ranges_keep_from)
  from s n b g d e show ?thesis by blast
qed

theorem invert_ranges_spec_witness:
  "interval_set (coalesce_ranges default_eps [\<lparr>start = 2, end' = 4\<rparr>, \<lparr>start = 3, end' = 5\<rparr>]) \<and>
   (0::real) \<le> 10 \<and>
   invert_ranges (coalesce_ranges default_eps [\<lparr>start = 2, end' = 4\<rparr>, \<lparr>start = 3, end' = 5\<rparr>]) 10
     = [\<lparr>start = 0, end' = 2\<rparr>, \<lparr>start = 5, end' = 10\<rparr>] \<and>
   sorted_by_start [\<lparr>start = 0, end' = 2\<rparr>, \<lparr>start = 5, end' = 10\<rparr>] \<and>
   non_overlapping [\<lparr>start = 0, end' = 2\<rparr>, \<lparr>start = 5, end' = 10\<rparr>] \<and>
   (cover [\<lparr>start = 0, end' = 2\<rparr>, \<lparr>start = 5, end' = 10\<rparr>] \<union> cover [\<lparr>start = 2, end' = 5\<rparr>])
     \<inter> {0 ..< 10} = {0 ..< 10} \<and>
   cover [\<lparr>start = 0, end' = 2\<rparr>, \<lparr>start = 5, end' = 10\<rparr>] \<inter> cover [\<lparr>start = 2, end' = 5\<rparr>] = {}"
proof -
  have h1: "interval_set
      (coalesce_ranges default_eps [\<lparr>start = 2, end' = 4\<rparr>, \<lparr>start = 3, end' = 5\<rparr>])"
    by (rule coalesce_ranges_interval_set) (simp_all add: default_eps_def)
  have h2: "(0::real) \<le> 10" by simp
  have k: "invert_ranges (coalesce_ranges default_eps [\<lparr>start = 2, end' = 4\<rparr>, \<lparr>start = 3, end' = 5\<rparr>]) 10
     = [\<lparr>start = 0, end' = 2\<rparr>, \<lparr>start = 5, end' = 10\<rparr>]"
    by (simp add: coalesce_ranges_example invert_ranges_example)
  from invert_ranges_spec [OF h1 h2] h1 h2 k show ?thesis
    by (simp add: coalesce_ranges_example)
qed

section \<open>Properties of the store, the filter graph, the edit operation and the parser\<close>

subsection \<open>Merging on a store\<close>

text \<open>
  When the references of the list are pairwise distinct, the dictionaries the returned
  list points to in the final store are the intervals the function on values computes
  from the dictionaries of the input list: the model on values describes the code on
  every list without a dictionary held twice.
\<close>

lemma insort_key_map:
  "map h (insort_key (\<lambda>r. f (h r)) x ys) = insort_key f (h x) (map h ys)"
  by (induction ys) simp_all

lemma sort_key_map:
  "map h (sort_key (\<lambda>r. f (h r)) xs) = sort_key f (map h xs)"
  by (induction xs) (simp_all add: insort_key_map)

lemma foldl_coalesce_step_h_frame:
  assumes "merged \<noteq> []" and "foldl (coalesce_step_h fadd eps) (h, merged) rs = (h', m)"
  shows "(\<forall>a. start (h' a) = start (h a) \<and> end' (h a) \<le> end' (h' a)) \<and>
         (\<forall>a. \<exists>x \<in> insert a (set merged \<union> set rs). end' (h' a) = end' (h x)) \<and>
         (\<forall>a. a \<notin> set m \<longrightarrow> h' a = h a) \<and>
         set merged \<subseteq> set m \<and> set m \<subseteq> set merged \<union> set rs"
  using assms
proof (induction rs arbitrary: h merged)
  case Nil
  then show ?case by simp
next
  case (Cons r rs)
  let ?lst = "last merged"
  show ?case
  proof (cases "start (h r) \<le> fadd (end' (h ?lst)) eps")
    case True
    define h1 where "h1 = h(?lst := (h ?lst)\<lparr>end' := max (end' (h ?lst)) (end' (h r))\<rparr>)"
    have step: "coalesce_step_h fadd eps (h, merged) r = (h1, merged)"
      using True by (simp add: coalesce_step_h_def Let_def h1_def)
    have mem: "?lst \<in> set merged" using Cons.prems(1) by simp
    have h1a: "start (h1 a) = start (h a) \<and> end' (h a) \<le> end' (h1 a)" for a
      by (simp add: h1_def)
    have h1b: "a \<noteq> ?lst \<Longrightarrow> h1 a = h a" for a
      by (simp add: h1_def)
    have h1c: "end' (h1 ?lst) = end' (h ?lst) \<or> end' (h1 ?lst) = end' (h r)"
      by (simp add: h1_def max_def)
    have "foldl (coalesce_step_h fadd eps) (h1, merged) rs = (h', m)"
      using Cons.prems(2) step by simp
    from Cons.IH [OF Cons.prems(1) this]
    have ih1: "\<And>a. start (h' a) = start (h1 a) \<and> end' (h1 a) \<le> end' (h' a)"
      and ih5: "\<And>a. \<exists>x \<in> insert a (set merged \<union> set rs). end' (h' a) = end' (h1 x)"
      and ih2: "\<And>a. a \<notin> set m \<Longrightarrow> h' a = h1 a"
      and ih3: "set merged \<subseteq> set m"
      and ih4: "set m \<subseteq> set merged \<union> set rs"
      by blast+
    have a: "\<forall>a. start (h' a) = start (h a) \<and> end' (h a) \<le> end' (h' a)"
    proof
      fix a
      from ih1 [of a] h1a [of a]
      show "start (h' a) = start (h a) \<and> end' (h a) \<le> end' (h' a)" by linarith
    qed
    have e: "\<forall>a. \<exists>x \<in> insert a (set merged \<union> set (r # rs)). end' (h' a) = end' (h x)"
    proof
      fix a
      from ih5 [of a] obtain x where x: "x \<in> insert a (set merged \<union> set rs)"
        and ex: "end' (h' a) = end' (h1 x)" by blast
      show "\<exists>y \<in> insert a (set merged \<union> set (r # rs)). end' (h' a) = end' (h y)"
      proof (cases "x = ?lst")
        case True
        with h1c ex have "end' (h' a) = end' (h ?lst) \<or> end' (h' a) = end' (h r)" by simp
        with mem show ?thesis by auto
      next
        case False
        with h1b [of x] ex have "end' (h' a) = end' (h x)" by simp
        with x show ?thesis by auto
      qed
    qed
    have b: "\<forall>a. a \<notin> set m \<longrightarrow> h' a = h a"
    proof (intro allI impI)
      fix a assume n: "a \<notin> set m"
      then have "a \<noteq> ?lst" using mem ih3 by auto
      with ih2 [of a] h1b [of a] n show "h' a = h a" by simp
    qed
    have c: "set m \<subseteq> set merged \<union> set (r # rs)" using ih4 by auto
    from a e b c ih3 show ?thesis by blast
  next
    case False
    have step: "coalesce_step_h fadd eps (h, merged) r = (h, merged @ [r])"
      using False by (simp add: coalesce_step_h_def Let_def)
    have f: "foldl (coalesce_step_h fadd eps) (h, merged @ [r]) rs = (h', m)"
      using Cons.prems(2) step by simp
    have ne: "merged @ [r] \<noteq> []" by simp
    from Cons.IH [OF ne f]
    have ih1: "\<forall>a. start (h' a) = start (h a) \<and> end' (h a) \<le> end' (h' a)"
      and ih5: "\<forall>a. \<exists>x \<in> insert a (set (merged @ [r]) \<union> set rs). end' (h' a) = end' (h x)"
      and ih2: "\<forall>a. a \<notin> set m \<longrightarrow> h' a = h a"
      and ih3: "set (merged @ [r]) \<subseteq> set m"
      and ih4: "set m \<subseteq> set (merged @ [r]) \<union> set rs"
      by blast+
    have s: "set (merged @ [r]) \<union> set rs = set merged \<union> set (r # rs)" by auto
    from ih1 ih5 ih2 ih3 ih4 show ?thesis unfolding s by auto
  qed
qed

lemma foldl_coalesce_step_h_refines:
  assumes "merged \<noteq> []" and "distinct (merged @ rs)"
    and "foldl (coalesce_step_h fadd eps) (h, merged) rs = (h', m)"
  shows "map h' m = foldl (coalesce_step_fl fadd eps) (map h merged) (map h rs)"
  using assms
proof (induction rs arbitrary: h merged)
  case Nil
  then show ?case by simp
next
  case (Cons r rs)
  let ?lst = "last merged"
  have lm: "last (map h merged) = h ?lst" using Cons.prems(1) by (simp add: last_map)
  show ?case
  proof (cases "start (h r) \<le> fadd (end' (h ?lst)) eps")
    case True
    define upd where "upd = (h ?lst)\<lparr>end' := max (end' (h ?lst)) (end' (h r))\<rparr>"
    define h1 where "h1 = h(?lst := upd)"
    have step: "coalesce_step_h fadd eps (h, merged) r = (h1, merged)"
      using True by (simp add: coalesce_step_h_def Let_def h1_def upd_def)
    have m_split: "merged = butlast merged @ [?lst]" using Cons.prems(1) by simp
    have "distinct (butlast merged @ [?lst])"
      using Cons.prems(2) m_split by (metis distinct_append)
    then have nb: "?lst \<notin> set (butlast merged)" by simp
    have mem: "?lst \<in> set merged" using Cons.prems(1) by simp
    have nr: "?lst \<notin> set (r # rs)" using Cons.prems(2) mem by auto
    have h1_lst: "h1 ?lst = upd" by (simp add: h1_def)
    have h1_other: "a \<noteq> ?lst \<Longrightarrow> h1 a = h a" for a by (simp add: h1_def)
    have "map h1 merged = map h1 (butlast merged) @ [h1 ?lst]"
      using m_split by (metis list.simps(8,9) map_append)
    moreover have "map h1 (butlast merged) = map h (butlast merged)"
      using nb h1_other by (intro map_cong) (simp, metis)
    ultimately have m1: "map h1 merged = butlast (map h merged) @ [upd]"
      using h1_lst by (simp add: map_butlast)
    have r1: "map h1 rs = map h rs"
      using nr h1_other by (intro map_cong) (simp, metis list.set_intros(2))
    have vstep: "coalesce_step_fl fadd eps (map h merged) (h r) = map h1 merged"
      using True lm m1 by (simp add: coalesce_step_fl_def Let_def upd_def)
    have d: "distinct (merged @ rs)" using Cons.prems(2) by simp
    have f: "foldl (coalesce_step_h fadd eps) (h1, merged) rs = (h', m)"
      using Cons.prems(3) step by simp
    from Cons.IH [OF Cons.prems(1) d f] vstep r1 show ?thesis by simp
  next
    case False
    have step: "coalesce_step_h fadd eps (h, merged) r = (h, merged @ [r])"
      using False by (simp add: coalesce_step_h_def Let_def)
    have vstep: "coalesce_step_fl fadd eps (map h merged) (h r) = map h (merged @ [r])"
      using False lm by (simp add: coalesce_step_fl_def)
    have d: "distinct ((merged @ [r]) @ rs)" using Cons.prems(2) by simp
    have f: "foldl (coalesce_step_h fadd eps) (h, merged @ [r]) rs = (h', m)"
      using Cons.prems(3) step by simp
    have ne: "merged @ [r] \<noteq> []" by simp
    from Cons.IH [OF ne d f] vstep show ?thesis by simp
  qed
qed

lemma coalesce_ranges_h_refines:
  assumes "distinct refs" and "coalesce_ranges_h fadd eps h refs = (h', m)"
  shows "map h' m = coalesce_ranges_fl fadd eps (map h refs)"
proof (cases "refs = []")
  case True
  with assms(2) show ?thesis by (simp add: coalesce_ranges_h_def coalesce_ranges_fl_def)
next
  case False
  let ?rs = "sort_key (\<lambda>r. start (h r)) refs"
  have ne: "?rs \<noteq> []" using False by (metis length_sort length_0_conv)
  then have split: "?rs = hd ?rs # tl ?rs" by simp
  have d: "distinct ([hd ?rs] @ tl ?rs)"
    using assms(1) split by (metis append_Cons append_Nil distinct_sort)
  have f: "foldl (coalesce_step_h fadd eps) (h, [hd ?rs]) (tl ?rs) = (h', m)"
    using assms(2) False by (simp add: coalesce_ranges_h_def Let_def)
  have "map h' m = foldl (coalesce_step_fl fadd eps) (map h [hd ?rs]) (map h (tl ?rs))"
    by (rule foldl_coalesce_step_h_refines [OF _ d f]) simp
  moreover have "map h ?rs = sort_key start (map h refs)" by (rule sort_key_map)
  then have "hd (sort_key start (map h refs)) = h (hd ?rs)"
    and "tl (sort_key start (map h refs)) = map h (tl ?rs)"
    using ne by (metis hd_map, metis map_tl)
  ultimately show ?thesis using False by (simp add: coalesce_ranges_fl_def)
qed

lemma coalesce_ranges_h_example:
  "coalesce_ranges_h exact_add 0 example_store [0, 1] =
     (example_store(0 := \<lparr>start = 0, end' = 3\<rparr>), [0])"
  by (simp add: coalesce_ranges_h_def coalesce_step_h_def exact_add_def example_store_def)

subsection \<open>The loop over the keep-intervals\<close>






subsection \<open>The edit operation\<close>

text \<open>
  Once the probe has given a duration and the keep-set is not empty, the outcome is
  that of starting the program named by the first argument: the error of the start,
  with no second child, or the outcome of the child that ran.
\<close>

lemma example_probe_duration:
  "env_probe example_env path = Probed
     \<lparr>streams = [\<lparr>codec_type = Some ''video'', stream_duration = None\<rparr>],
      format_duration = Some ''10.0''\<rparr> \<and>
   probe_duration (env_float example_env)
     \<lparr>streams = [\<lparr>codec_type = Some ''video'', stream_duration = None\<rparr>],
      format_duration = Some ''10.0''\<rparr> = Inr 10"
  by (simp add: example_env_def example_probe_def probe_duration_def format_seconds_def
      decimal_float_def is_digit_def digits_val_def)

lemma exec_not_started:
  assumes "env_probe e input_path = Probed probe"
    and "probe_duration (env_float e) probe = Inr duration"
    and "keep = invert_ranges (coalesce_ranges_fl (env_fadd e) default_eps remove_segments) duration"
    and "keep \<noteq> []"
    and "env_exec e
           (env_get_args e
              \<lparr>cmd_input = input_path, cmd_output = output_path,
               cmd_filter_complex =
                 filter_complex (env_fmt e) keep apply_color_grade normalize_audio overlay_text\<rparr>)
         = ExecNotStarted err"
  shows "auto_edit_video e input_path output_path remove_segments
           apply_color_grade normalize_audio overlay_text w
         = (Inl err, w @ [Ffprobe input_path])"
  using assms by (simp add: auto_edit_video_def Let_def)

lemma exec_exited:
  assumes "env_probe e input_path = Probed probe"
    and "probe_duration (env_float e) probe = Inr duration"
    and "keep = invert_ranges (coalesce_ranges_fl (env_fadd e) default_eps remove_segments) duration"
    and "keep \<noteq> []"
    and "args = env_get_args e
              \<lparr>cmd_input = input_path, cmd_output = output_path,
               cmd_filter_complex =
                 filter_complex (env_fmt e) keep apply_color_grade normalize_audio overlay_text\<rparr>"
    and "env_exec e args = ExecExited proc"
  shows "auto_edit_video e input_path output_path remove_segments
           apply_color_grade normalize_audio overlay_text w
         = (if returncode proc \<noteq> 0
            then Inl (RuntimeError (''ffmpeg failed: '' @ stderr_text proc))
            else Inr (),
            w @ [Ffprobe input_path, Child args])"
  using assms by (simp add: auto_edit_video_def Let_def)

subsection \<open>The parser and the machine\<close>

text \<open>
  On the markers its two patterns match, the loop over the lines is the two-state
  machine, and the stream of the specification's example gives the one interval from
  1.0 to 2.5. A stream that prints each line with a line feed after it is split into
  these lines.
\<close>

lemma parse_line_matched:
  assumes "matched_on_line pyfloat line = Some ms"
  shows "\<exists>cs' out'. parse_line pyfloat (cs, out) line = Inr (cs', out') \<and>
           foldl machine_step (abs_state cs, out) ms = (abs_state cs', out')"
proof (cases cs)
  case None
  with assms show ?thesis
    by (auto simp: matched_on_line_def matched_marker_def parse_line_def
        split: option.splits sum.splits)
next
  case (Some s)
  with assms show ?thesis
    by (auto simp: matched_on_line_def matched_marker_def parse_line_def
        split: option.splits sum.splits)
qed

lemma parse_lines_matched:
  "matched_on_lines pyfloat ls = Some ms \<Longrightarrow>
   \<exists>cs' out'. parse_lines pyfloat (cs, out) ls = Inr (cs', out') \<and>
     foldl machine_step (abs_state cs, out) ms = (abs_state cs', out')"
proof (induction ls arbitrary: cs out ms)
  case Nil
  then show ?case by simp
next
  case (Cons l ls)
  from Cons.prems obtain m1 m2 where m1: "matched_on_line pyfloat l = Some m1"
    and m2: "matched_on_lines pyfloat ls = Some m2" and ms: "ms = m1 @ m2"
    by (auto split: option.splits)
  from parse_line_matched [OF m1, of cs out] obtain cs1 out1 where
    s1: "parse_line pyfloat (cs, out) l = Inr (cs1, out1)"
    and f1: "foldl machine_step (abs_state cs, out) m1 = (abs_state cs1, out1)" by blast
  from Cons.IH [OF m2, of cs1 out1] obtain cs2 out2 where
    s2: "parse_lines pyfloat (cs1, out1) ls = Inr (cs2, out2)"
    and f2: "foldl machine_step (abs_state cs1, out1) m2 = (abs_state cs2, out2)" by blast
  from s1 s2 f1 f2 ms show ?case by simp
qed

lemma detect_matched_machine:
  assumes "matched_on_lines pyfloat (splitlines text) = Some ms"
  shows "detect_silence_intervals pyfloat text = Inr (machine_run ms)"
proof -
  from parse_lines_matched [OF assms, of None "[]"] obtain cs' out' where
    "parse_lines pyfloat (None, []) (splitlines text) = Inr (cs', out')"
    and "foldl machine_step (Idle, []) ms = (abs_state cs', out')" by auto
  then show ?thesis by (simp add: detect_silence_intervals_def machine_run_def)
qed

lemma example_stream_intervals:
  "detect_silence_intervals decimal_float example_stream
     = Inr [\<lparr>silence_start = 1, silence_end = 5 / 2\<rparr>]"
  unfolding example_stream_def by code_simp





section \<open>The claims about the edit operation\<close>

text \<open>
  C2, as stated, asks that the error for no remaining content is raised before any
  subprocess is spawned. The duration comes from \<^verbatim>\<open>_probe_duration\<close>, which runs
  \<^verbatim>\<open>ffprobe\<close> as a child process: for a video of ten seconds and the remove-set
  \<open>[{0,10}]\<close> the call ends with the error and with one child in the log.
\<close>

theorem probe_before_error_counterexample:
  "auto_edit_video example_env ''in.mp4'' ''out.mp4'' [\<lparr>start = 0, end' = 10\<rparr>]
     False False None []
   = (Inl (ValueError ''Nothing to keep after removing segments''), [Ffprobe ''in.mp4''])"
proof -
  have k: "invert_ranges (coalesce_ranges_fl (env_fadd example_env) default_eps
      [\<lparr>start = 0, end' = 10\<rparr>]) 10 = []"
    by (simp add: coalesce_ranges_fl_def invert_ranges_def invert_step_def)
  from example_probe_duration [of "''in.mp4''"] k show ?thesis
    by (simp add: auto_edit_video_def Let_def)
qed

text \<open>
  C2, amended. For every edit request whose probe gives a duration and whose inversion
  yields an empty keep-set, the edit operation fails with the error for no remaining
  content (the \<^verbatim>\<open>ValueError\<close> \<^verbatim>\<open>Nothing to keep after removing segments\<close>), and the
  only child process started by the call is the \<^verbatim>\<open>ffprobe\<close> of the duration probe:
  the error is raised before the engine is started.
\<close>

theorem no_content_remaining:
  assumes "env_probe e input_path = Probed probe"
    and "probe_duration (env_float e) probe = Inr duration"
    and "invert_ranges (coalesce_ranges_fl (env_fadd e) default_eps remove_segments) duration = []"
  shows "auto_edit_video e input_path output_path remove_segments
           apply_color_grade normalize_audio overlay_text w
         = (Inl (ValueError ''Nothing to keep after removing segments''),
            w @ [Ffprobe input_path])"
  using assms by (simp add: auto_edit_video_def Let_def)

theorem no_content_remaining_witness:
  "env_probe example_env ''clip.mp4'' = Probed
     \<lparr>streams = [\<lparr>codec_type = Some ''video'', stream_duration = None\<rparr>],
      format_duration = Some ''10.0''\<rparr> \<and>
   probe_duration (env_float example_env)
     \<lparr>streams = [\<lparr>codec_type = Some ''video'', stream_duration = None\<rparr>],
      format_duration = Some ''10.0''\<rparr> = Inr 10 \<and>
   invert_ranges (coalesce_ranges_fl (env_fadd example_env) default_eps
      [\<lparr>start = 0, end' = 12\<rparr>]) 10 = [] \<and>
   auto_edit_video example_env ''clip.mp4'' ''out.mp4'' [\<lparr>start = 0, end' = 12\<rparr>]
     True False None []
   = (Inl (ValueError ''Nothing to keep after removing segments''), [Ffprobe ''clip.mp4''])"
proof -
  note p = example_probe_duration [of "''clip.mp4''"]
  have k: "invert_ranges (coalesce_ranges_fl (env_fadd example_env) default_eps
      [\<lparr>start = 0, end' = 12\<rparr>]) 10 = []"
    by (simp add: coalesce_ranges_fl_def invert_ranges_def invert_step_def)
  from no_content_remaining [OF conjunct1 [OF p] conjunct2 [OF p] k,
      of "''out.mp4''" True False None "[]"]
  have "auto_edit_video example_env ''clip.mp4'' ''out.mp4'' [\<lparr>start = 0, end' = 12\<rparr>]
     True False None []
   = (Inl (ValueError ''Nothing to keep after removing segments''), [Ffprobe ''clip.mp4''])"
    by simp
  with p k show ?thesis by blast
qed



text \<open>
  C6. The claim asks that the call succeeds exactly when the engine exits with code
  zero. The code starts the child with \<^verbatim>\<open>create_subprocess_exec(*cmd.get_args())\<close>, and
  the argument list of the command builder begins with the input option \<^verbatim>\<open>-i\<close>, not
  with the name of the program. On a system where \<^verbatim>\<open>ffmpeg\<close> exists and would end with
  exit code 0 on these arguments, the call starts no engine and returns the
  \<^verbatim>\<open>FileNotFoundError\<close> of the program \<^verbatim>\<open>-i\<close>; the only child in the log is the
  \<^verbatim>\<open>ffprobe\<close> of the duration probe.
\<close>

theorem engine_not_started:
  "auto_edit_video example_env ''in.mp4'' ''out.mp4'' [\<lparr>start = 2, end' = 5\<rparr>]
     False False None []
   = (Inl (FileNotFoundError ''-i''), [Ffprobe ''in.mp4'']) \<and>
   example_exec (''ffmpeg'' # example_get_args
      \<lparr>cmd_input = ''in.mp4'', cmd_output = ''out.mp4'',
       cmd_filter_complex =
         filter_complex example_fmt [\<lparr>start = 0, end' = 2\<rparr>, \<lparr>start = 5, end' = 10\<rparr>]
           False False None\<rparr>)
   = ExecExited \<lparr>returncode = 0, stderr_text = []\<rparr>"
proof -
  have k: "invert_ranges (coalesce_ranges_fl (env_fadd example_env) default_eps
      [\<lparr>start = 2, end' = 5\<rparr>]) 10 = [\<lparr>start = 0, end' = 2\<rparr>, \<lparr>start = 5, end' = 10\<rparr>]"
    by (simp add: coalesce_ranges_fl_def invert_ranges_def invert_step_def)
  have x: "env_exec example_env (env_get_args example_env cmd)
      = ExecNotStarted (FileNotFoundError ''-i'')" for cmd
    by (simp add: example_env_def example_exec_def example_get_args_def)
  note p = example_probe_duration [of "''in.mp4''"]
  have a: "auto_edit_video example_env ''in.mp4'' ''out.mp4'' [\<lparr>start = 2, end' = 5\<rparr>]
     False False None []
   = (Inl (FileNotFoundError ''-i''), [] @ [Ffprobe ''in.mp4''])"
    by (rule exec_not_started [OF conjunct1 [OF p] conjunct2 [OF p] k [symmetric] _ x]) simp
  have b: "example_exec (''ffmpeg'' # args) = ExecExited \<lparr>returncode = 0, stderr_text = []\<rparr>"
    for args
    by (simp add: example_exec_def)
  from a b show ?thesis by simp
qed

section \<open>The claim about the store\<close>

text \<open>
  C9, as stated, asks that every interval passed to the merge still holds its start and
  end afterwards. Merging the two dictionaries of the example store (tolerance 0)
  overwrites the end of the first one, 2, with 3.
\<close>

theorem coalesce_mutates_input_counterexample:
  "fst (coalesce_ranges_h exact_add 0 example_store [0, 1]) 0 = \<lparr>start = 0, end' = 3\<rparr> \<and>
   example_store 0 = \<lparr>start = 0, end' = 2\<rparr>"
proof -
  have a: "fst (coalesce_ranges_h exact_add 0 example_store [0, 1]) 0 = \<lparr>start = 0, end' = 3\<rparr>"
    by (simp only: coalesce_ranges_h_example fst_conv fun_upd_same)
  have b: "example_store 0 = \<lparr>start = 0, end' = 2\<rparr>"
    by (simp add: example_store_def)
  from a b show ?thesis by (rule conjI)
qed

text \<open>
  C9, amended. Merging writes to the dictionaries passed to it, and only to their ends:
  in the store after the call every dictionary has the start it had and an end at
  least as large as before, each end is an end that it or a dictionary of the list
  held before the call, every dictionary that is not in the returned list is
  unchanged, the returned list holds references of the input list only, and when no
  dictionary is held twice by the list the dictionaries of the returned list hold
  exactly the intervals that merging the values gives.
\<close>

theorem coalesce_ranges_h_frame:
  assumes "coalesce_ranges_h fadd eps h refs = (h', m)"
  shows "(\<forall>a. start (h' a) = start (h a) \<and> end' (h a) \<le> end' (h' a)) \<and>
         (\<forall>a. \<exists>x \<in> insert a (set refs). end' (h' a) = end' (h x)) \<and>
         (\<forall>a. a \<notin> set m \<longrightarrow> h' a = h a) \<and>
         set m \<subseteq> set refs \<and>
         (distinct refs \<longrightarrow> map h' m = coalesce_ranges_fl fadd eps (map h refs))"
proof -
  have frame: "(\<forall>a. start (h' a) = start (h a) \<and> end' (h a) \<le> end' (h' a)) \<and>
         (\<forall>a. \<exists>x \<in> insert a (set refs). end' (h' a) = end' (h x)) \<and>
         (\<forall>a. a \<notin> set m \<longrightarrow> h' a = h a) \<and>
         set m \<subseteq> set refs"
  proof (cases "refs = []")
    case True
    with assms show ?thesis by (simp add: coalesce_ranges_h_def)
  next
    case False
    let ?rs = "sort_key (\<lambda>r. start (h r)) refs"
    have ne: "?rs \<noteq> []" using False by (metis length_sort length_0_conv)
    then have "set [hd ?rs] \<union> set (tl ?rs) = set ?rs"
      by (metis list.collapse list.simps(15) empty_set Un_insert_left sup_bot_left)
    then have s: "set [hd ?rs] \<union> set (tl ?rs) = set refs" by simp
    have f: "foldl (coalesce_step_h fadd eps) (h, [hd ?rs]) (tl ?rs) = (h', m)"
      using assms False by (simp add: coalesce_ranges_h_def Let_def)
    have "[hd ?rs] \<noteq> []" by simp
    from foldl_coalesce_step_h_frame [OF this f] show ?thesis unfolding s by blast
  qed
  have "distinct refs \<longrightarrow> map h' m = coalesce_ranges_fl fadd eps (map h refs)"
    using coalesce_ranges_h_refines [OF _ assms] by blast
  with frame show ?thesis by blast
qed

theorem coalesce_ranges_h_frame_witness:
  "coalesce_ranges_h exact_add 0 example_store [0, 1] =
     (example_store(0 := \<lparr>start = 0, end' = 3\<rparr>), [0]) \<and>
   distinct [0 :: nat, 1] \<and>
   start ((example_store(0 := \<lparr>start = 0, end' = 3\<rparr>)) 0) = start (example_store 0) \<and>
   end' (example_store 0) \<le> end' ((example_store(0 := \<lparr>start = 0, end' = 3\<rparr>)) 0) \<and>
   (example_store(0 := \<lparr>start = 0, end' = 3\<rparr>)) 1 = example_store 1 \<and>
   map (example_store(0 := \<lparr>start = 0, end' = 3\<rparr>)) [0]
     = coalesce_ranges_fl exact_add 0 (map example_store [0, 1])"
proof -
  have d: "distinct [0 :: nat, 1]" by simp
  from coalesce_ranges_h_frame [OF coalesce_ranges_h_example]
  have fr: "\<forall>a. start ((example_store(0 := \<lparr>start = 0, end' = 3\<rparr>)) a) = start (example_store a) \<and>
      end' (example_store a) \<le> end' ((example_store(0 := \<lparr>start = 0, end' = 3\<rparr>)) a)"
    and un: "\<forall>a. a \<notin> set [0::nat] \<longrightarrow> (example_store(0 := \<lparr>start = 0, end' = 3\<rparr>)) a = example_store a"
    and rf: "distinct [0 :: nat, 1] \<longrightarrow> map (example_store(0 := \<lparr>start = 0, end' = 3\<rparr>)) [0]
     = coalesce_ranges_fl exact_add 0 (map example_store [0, 1])"
    by blast+
  from un have "(example_store(0 := \<lparr>start = 0, end' = 3\<rparr>)) 1 = example_store 1" by simp
  with fr rf d coalesce_ranges_h_example show ?thesis by blast
qed

section \<open>The claims about the silence parser\<close>

text \<open>
  C7. The claim asks that a start marker while idle records the timestamp and that the
  end marker that follows emits the interval. The engine prints a negative timestamp
  for a silence that begins with the stream; the pattern \<^verbatim>\<open>([0-9.]+)\<close> has no sign, the
  line \<^verbatim>\<open>silence_start: -0.5\<close> is no match, and the end marker of the next line finds
  no start: the parser returns no interval, where the machine of the specification
  emits the interval from -0.5 to 2.5 on the two markers.
\<close>

theorem signed_start_lost:
  "detect_silence_intervals decimal_float ''silence_start: -0.5\<newline>silence_end: 2.5\<newline>'' = Inr [] \<and>
   machine_run [SilenceStart (- 1 / 2), SilenceEnd (5 / 2 :: real)]
     = [\<lparr>silence_start = - 1 / 2, silence_end = 5 / 2\<rparr>]"
proof -
  have a: "detect_silence_intervals decimal_float ''silence_start: -0.5\<newline>silence_end: 2.5\<newline>''
      = Inr []"
    by code_simp
  have b: "machine_run [SilenceStart (- 1 / 2), SilenceEnd (5 / 2 :: real)]
     = [\<lparr>silence_start = - 1 / 2, silence_end = 5 / 2\<rparr>]"
    by (simp add: machine_run_def)
  from a b show ?thesis by (rule conjI)
qed




end
